theory Spec2Isabelle
  imports Main "HOL-Library.Word" "HOL-Library.AList" "HOL-Library.Multiset"
begin

unbundle bit_operations_syntax

section \<open>Types used by miner.h\<close>

text \<open>
  Modelled from the spec: the scalar types \<^verbatim>\<open>VertexId\<close> and \<^verbatim>\<open>BYTE\<close> are declared in the
  headers that miner.h includes, outside miner.h.  miner.h itself passes
  vertex identifiers to parameters of type \<^verbatim>\<open>unsigned\<close> (\<^verbatim>\<open>is_connected\<close>, \<^verbatim>\<open>is_all_connected\<close>) and
  casts indices with \<^verbatim>\<open>(BYTE)\<close>, so a vertex identifier is an unsigned 32-bit value and a
  \<^verbatim>\<open>BYTE\<close> an unsigned 8-bit value.  \<^verbatim>\<open>Frequency\<close> is \<^verbatim>\<open>typedef unsigned Frequency\<close> in miner.h.
\<close>

type_synonym VertexId = "32 word"
type_synonym BYTE = "8 word"
type_synonym Frequency = "32 word"

text \<open>
  How a call can end without a value: \<^verbatim>\<open>assert\<close> (with assertions compiled in) aborts the
  run and prints the violated expression; reading a container outside its contents is \<^verbatim>\<open>std::out_of_range\<close> for \<^verbatim>\<open>at()\<close> and
  undefined for \<^verbatim>\<open>operator[]\<close>.  Both are values of the model, never an unspecified HOL term.
\<close>

datatype fault = AssertionFailed string | OutOfRange

text \<open>
  Modelled from the spec: the class \<^verbatim>\<open>ElementType\<close> (one step of an embedding: a vertex
  identifier, the index of the element it was extended from, and labels).  The fields follow the
  constructor call in \<^verbatim>\<open>extend_edge\<close>:
  \<^verbatim>\<open>ElementType(dst, (BYTE)num_vertices, edge_label, dst_label, (BYTE)i)\<close>.
\<close>

record ElementType =
  vertex_id :: VertexId
  key :: BYTE
  edge_label :: BYTE
  vertex_label :: BYTE
  history_info :: BYTE

text \<open>
  Modelled from the spec: the class \<^verbatim>\<open>EdgeEmbedding\<close>, an ordered sequence of elements that
  also carries the id of its quick pattern (\<^verbatim>\<open>set_qpid\<close>, \<^verbatim>\<open>get_qpid\<close>).
\<close>

record EdgeEmbedding =
  elements :: "ElementType list"
  qp_id :: "32 word"

definition size_emb :: "EdgeEmbedding \<Rightarrow> nat" where
  "size_emb emb = length (elements emb)"

definition get_vertex :: "EdgeEmbedding \<Rightarrow> nat \<Rightarrow> fault + VertexId" where
  "get_vertex emb i =
     (if i < length (elements emb) then Inr (vertex_id (elements emb ! i)) else Inl OutOfRange)"

definition get_history :: "EdgeEmbedding \<Rightarrow> nat \<Rightarrow> fault + BYTE" where
  "get_history emb i =
     (if i < length (elements emb) then Inr (history_info (elements emb ! i)) else Inl OutOfRange)"

section \<open>The automorphism test of edge extension\<close>

text \<open>
  \<^verbatim>\<open>getEdge\<close>: the edge that element \<open>index\<close> added to the embedding, from the vertex of the
  element named by its history to its own vertex; the assertion rejects equal end points.
\<close>

definition getEdge :: "EdgeEmbedding \<Rightarrow> nat \<Rightarrow> fault + (VertexId \<times> VertexId)" where
  "getEdge emb index =
     (case get_history emb index of
        Inl f \<Rightarrow> Inl f
      | Inr h \<Rightarrow>
          (case get_vertex emb (unat h) of
             Inl f \<Rightarrow> Inl f
           | Inr a \<Rightarrow>
               (case get_vertex emb index of
                  Inl f \<Rightarrow> Inl f
                | Inr b \<Rightarrow>
                    if a \<noteq> b then Inr (a, b)
                    else Inl (AssertionFailed ''edge.first != edge.second''))))"

text \<open>\<^verbatim>\<open>swap\<close> orders a pair in place; the model returns the pair as it is left.\<close>

definition swap :: "VertexId \<times> VertexId \<Rightarrow> VertexId \<times> VertexId" where
  "swap pair = (if fst pair > snd pair then (snd pair, fst pair) else pair)"

text \<open>
  \<^verbatim>\<open>compare\<close> takes both edges by reference, orders each with \<^verbatim>\<open>swap\<close>, and returns an
  \<^verbatim>\<open>int\<close>: the difference of two unsigned 32-bit values, read as a signed 32-bit value.  The
  model returns the difference together with both edges as they are left.
\<close>

definition compare ::
  "VertexId \<times> VertexId \<Rightarrow> VertexId \<times> VertexId \<Rightarrow>
   int \<times> (VertexId \<times> VertexId) \<times> (VertexId \<times> VertexId)" where
  "compare oneEdge otherEdge =
     (let one = swap oneEdge; other = swap otherEdge
      in (if fst one = fst other then sint (snd one - snd other)
          else sint (fst one - fst other), one, other))"

text \<open>
  The loop of \<^verbatim>\<open>is_automorphism\<close> over the indices after the extension point; it returns at the
  first edge for which \<^verbatim>\<open>compare\<close> is not positive.
\<close>

fun later_edges :: "EdgeEmbedding \<Rightarrow> VertexId \<times> VertexId \<Rightarrow> nat list \<Rightarrow> fault + bool" where
  "later_edges emb added_edge [] = Inr False"
| "later_edges emb added_edge (index # rest) =
     (case getEdge emb index of
        Inl f \<Rightarrow> Inl f
      | Inr edge \<Rightarrow>
          (case compare added_edge edge of
             (cmp, added_edge', edge') \<Rightarrow>
               if cmp \<le> 0 then Inr True else later_edges emb added_edge' rest))"

definition is_automorphism ::
  "EdgeEmbedding \<Rightarrow> BYTE \<Rightarrow> VertexId \<Rightarrow> VertexId \<Rightarrow> bool \<Rightarrow> fault + bool" where
  "is_automorphism emb history src dst vertex_existed =
     (case get_vertex emb 0 of
        Inl f \<Rightarrow> Inl f
      | Inr v0 \<Rightarrow>
          if dst < v0 then Inr True
          else
            (case get_history emb (unat history) of
               Inl f \<Rightarrow> Inl f
             | Inr h \<Rightarrow>
                 (case get_vertex emb (unat h) of
                    Inl f \<Rightarrow> Inl f
                  | Inr vh \<Rightarrow>
                      if dst = vh then Inr True
                      else if vertex_existed \<and> src > dst then Inr True
                      else later_edges emb (src, dst) [unat history + 1 ..< size_emb emb])))"

text \<open>
  The order in the words of the specification: each edge is normalised to
  (smaller end point, larger end point), and the normalised pairs are compared
  lexicographically.
\<close>

definition normalized :: "VertexId \<times> VertexId \<Rightarrow> VertexId \<times> VertexId" where
  "normalized e = (min (fst e) (snd e), max (fst e) (snd e))"

definition lex_le :: "VertexId \<times> VertexId \<Rightarrow> VertexId \<times> VertexId \<Rightarrow> bool" where
  "lex_le e1 e2 =
     (fst (normalized e1) < fst (normalized e2) \<or>
      (fst (normalized e1) = fst (normalized e2) \<and> snd (normalized e1) \<le> snd (normalized e2)))"

text \<open>The edge added by element \<open>i\<close>, read directly from the element list.\<close>

definition edge_of :: "EdgeEmbedding \<Rightarrow> nat \<Rightarrow> VertexId \<times> VertexId" where
  "edge_of emb i =
     (vertex_id (elements emb ! unat (history_info (elements emb ! i))),
      vertex_id (elements emb ! i))"

text \<open>An embedding of two elements: the edge from vertex 1 to vertex 3.\<close>

definition emb_1_3 :: EdgeEmbedding where
  "emb_1_3 =
     \<lparr>elements =
        [\<lparr>vertex_id = 1, key = 1, edge_label = 0, vertex_label = 0, history_info = 0\<rparr>,
         \<lparr>vertex_id = 3, key = 2, edge_label = 0, vertex_label = 0, history_info = 0\<rparr>],
      qp_id = 0\<rparr>"

section \<open>Support of a canonical pattern\<close>

text \<open>
  Modelled from the spec: \<^verbatim>\<open>HashIntSets\<close> (a sequence of per-slot sets of the distinct vertex
  identifiers seen at a structural position) and \<^verbatim>\<open>UintMap\<close> (unsigned keys to unsigned
  values) are declared outside miner.h.  \<^verbatim>\<open>DomainSupport\<close> is \<^verbatim>\<open>typedef HashIntSets DomainSupport\<close>
  in miner.h.
\<close>

type_synonym HashIntSets = "VertexId set list"
type_synonym DomainSupport = HashIntSets
type_synonym UintMap = "32 word \<rightharpoonup> 32 word"

text \<open>
  \<^verbatim>\<open>get_support\<close>: the running minimum starts at \<^verbatim>\<open>0xFFFFFFFF\<close>; the size of a slot is a
  \<^verbatim>\<open>size_t\<close>, compared with the running minimum as a number and stored back as \<^verbatim>\<open>unsigned\<close>.
\<close>

definition get_support :: "HashIntSets \<Rightarrow> 32 word" where
  "get_support domainSets =
     fold (\<lambda>s support. if card s < unat support then of_nat (card s) else support)
       domainSets 0xFFFFFFFF"

text \<open>\<^verbatim>\<open>insert\<close> of \<^verbatim>\<open>std::unordered_map\<close>: a key that is present keeps its value.\<close>

definition insert_pair :: "32 word \<Rightarrow> 32 word \<Rightarrow> UintMap \<Rightarrow> UintMap" where
  "insert_pair k v m = (case m k of None \<Rightarrow> m(k \<mapsto> v) | Some old \<Rightarrow> m)"

text \<open>
  \<^verbatim>\<open>support_count\<close> for domain support.  The canonical map is given by its entries in
  iteration order; \<open>get_id\<close> is the id of a canonical pattern (Modelled from the spec: the class
  \<^verbatim>\<open>CanonicalGraph\<close> is declared outside miner.h).  The result is the count (\<open>cnt\<close>) together with
  the support map as it is left.
\<close>

fun support_count_loop ::
  "32 word \<Rightarrow> ('c \<Rightarrow> 32 word) \<Rightarrow> ('c \<times> DomainSupport) list \<Rightarrow> UintMap \<Rightarrow> 32 word
   \<Rightarrow> 32 word \<times> UintMap" where
  "support_count_loop threshold get_id [] support_map cnt = (cnt, support_map)"
| "support_count_loop threshold get_id ((cg, domainSets) # rest) support_map cnt =
     (let support = get_support domainSets;
          support_map' = insert_pair (get_id cg) support support_map;
          cnt' = (if support \<ge> threshold then cnt + 1 else cnt)
      in support_count_loop threshold get_id rest support_map' cnt')"

definition support_count_domain ::
  "32 word \<Rightarrow> ('c \<Rightarrow> 32 word) \<Rightarrow> ('c \<times> DomainSupport) list \<Rightarrow> UintMap
   \<Rightarrow> 32 word \<times> UintMap" where
  "support_count_domain threshold get_id cg_map support_map =
     support_count_loop threshold get_id cg_map support_map 0"

section \<open>Filtering through the id map\<close>

text \<open>
  Modelled from the spec: \<^verbatim>\<open>EdgeEmbeddingQueue\<close> derives from \<^verbatim>\<open>galois::InsertBag\<close>, which is
  declared outside miner.h; a queue is the sequence of the embeddings pushed so far, and
  \<^verbatim>\<open>push_back\<close> adds one at the end.
\<close>

type_synonym EdgeEmbeddingQueue = "EdgeEmbedding list"

text \<open>
  \<^verbatim>\<open>filter_each\<close> and \<^verbatim>\<open>filter\<close> over \<^verbatim>\<open>(id_map, support_map)\<close>.  \<^verbatim>\<open>at\<close> throws
  \<^verbatim>\<open>std::out_of_range\<close> for a key that is absent.  The result is the output queue as it is left.
\<close>

definition filter_each_id ::
  "32 word \<Rightarrow> EdgeEmbedding \<Rightarrow> UintMap \<Rightarrow> UintMap \<Rightarrow> EdgeEmbeddingQueue
   \<Rightarrow> fault + EdgeEmbeddingQueue" where
  "filter_each_id threshold emb id_map support_map out_queue =
     (case id_map (qp_id emb) of
        None \<Rightarrow> Inl OutOfRange
      | Some cg_id \<Rightarrow>
          (case support_map cg_id of
             None \<Rightarrow> Inl OutOfRange
           | Some support \<Rightarrow>
               Inr (if support \<ge> threshold then out_queue @ [emb] else out_queue)))"

fun filter_id ::
  "32 word \<Rightarrow> EdgeEmbeddingQueue \<Rightarrow> UintMap \<Rightarrow> UintMap \<Rightarrow> EdgeEmbeddingQueue
   \<Rightarrow> fault + EdgeEmbeddingQueue" where
  "filter_id threshold [] id_map support_map out_queue = Inr out_queue"
| "filter_id threshold (emb # in_queue) id_map support_map out_queue =
     (case id_map (qp_id emb) of
        None \<Rightarrow> Inl OutOfRange
      | Some cg_id \<Rightarrow>
          (case support_map cg_id of
             None \<Rightarrow> Inl OutOfRange
           | Some support \<Rightarrow>
               filter_id threshold in_queue id_map support_map
                 (if support \<ge> threshold then out_queue @ [emb] else out_queue)))"

text \<open>
  The condition of the specification, \<^verbatim>\<open>support_map.at(id_map.at(emb.get_qpid())) >= threshold\<close>,
  for an embedding whose two lookups succeed (\<open>resolves\<close>).
\<close>

definition resolves :: "UintMap \<Rightarrow> UintMap \<Rightarrow> EdgeEmbedding \<Rightarrow> bool" where
  "resolves id_map support_map emb =
     (case id_map (qp_id emb) of
        None \<Rightarrow> False
      | Some cg_id \<Rightarrow> (case support_map cg_id of None \<Rightarrow> False | Some support \<Rightarrow> True))"

definition frequent_by_id :: "32 word \<Rightarrow> UintMap \<Rightarrow> UintMap \<Rightarrow> EdgeEmbedding \<Rightarrow> bool" where
  "frequent_by_id threshold id_map support_map emb =
     (case id_map (qp_id emb) of
        None \<Rightarrow> False
      | Some cg_id \<Rightarrow>
          (case support_map cg_id of None \<Rightarrow> False | Some support \<Rightarrow> threshold \<le> support))"

text \<open>Two embeddings with the quick-pattern ids 10 and 11.\<close>

definition emb_qp10 :: EdgeEmbedding where
  "emb_qp10 = emb_1_3\<lparr>qp_id := 10\<rparr>"

definition emb_qp11 :: EdgeEmbedding where
  "emb_qp11 = emb_1_3\<lparr>qp_id := 11\<rparr>"

section \<open>Canonical patterns and their maps\<close>

text \<open>
  Modelled from the spec: the classes \<^verbatim>\<open>QuickPattern\<close> and \<^verbatim>\<open>CanonicalGraph\<close> and the
  canonical labelling of bliss are declared outside miner.h.  A quick pattern is a value of a
  type \<open>'q\<close>, a canonical pattern the value of a type \<open>'c\<close> that the hash maps compare; what
  miner.h asks of them is passed as functions: the size and the id of a quick pattern, the id
  of a canonical pattern, and the oracle \<open>canonical_oracle\<close>, which stands for building the
  bliss graph of a quick pattern, its canonical labelling, the permuted graph and the
  \<^verbatim>\<open>CPattern\<close> made from it.  It returns the canonical pattern together with the slot
  permutation read by \<^verbatim>\<open>get_quick_pattern_index\<close>.
\<close>

record 'c CPattern =
  canonical_form :: 'c
  get_quick_pattern_index :: "nat \<Rightarrow> nat"

text \<open>
  \<^verbatim>\<open>turn_canonical_graph\<close> calls \<^verbatim>\<open>readGraph\<close>, which asserts \<^verbatim>\<open>!opt_directed\<close> and, before it
  reads the edges, \<^verbatim>\<open>qp.get_size() > 1\<close>; then the oracle gives the canonical pattern.
\<close>

definition turn_canonical_graph ::
  "('q \<Rightarrow> nat) \<Rightarrow> ('q \<Rightarrow> 'c CPattern) \<Rightarrow> 'q \<Rightarrow> bool \<Rightarrow> fault + 'c CPattern" where
  "turn_canonical_graph get_size canonical_oracle qp is_directed =
     (if is_directed then Inl (AssertionFailed ''!opt_directed'')
      else if \<not> 1 < get_size qp then Inl (AssertionFailed ''qp.get_size() > 1'')
      else Inr (canonical_oracle qp))"

text \<open>
  A hash map that miner.h iterates over is the list of its entries, with one entry for a key.
  \<^verbatim>\<open>operator[]\<close> returns the value of a key and first adds the key with a default value when it
  is absent.
\<close>

type_synonym 'c CgMapDomain = "('c \<times> DomainSupport) list"
type_synonym 'c CgMapFreq = "('c \<times> Frequency) list"

definition subscript :: "('k \<times> 'v) list \<Rightarrow> 'k \<Rightarrow> 'v \<Rightarrow> 'v \<times> ('k \<times> 'v) list" where
  "subscript m k dflt =
     (case map_of m k of None \<Rightarrow> (dflt, m @ [(k, dflt)]) | Some v \<Rightarrow> (v, m))"

text \<open>
  The slot loop of \<^verbatim>\<open>canonical_aggregate_each\<close> for domain support, on the slots of the
  entry of the canonical pattern: slot \<open>i\<close> receives the quick pattern's set at index
  \<open>qp_idx = cg->get_quick_pattern_index(i)\<close>.
\<close>

fun canonical_slots ::
  "(nat \<Rightarrow> nat) \<Rightarrow> nat \<Rightarrow> DomainSupport \<Rightarrow> nat list \<Rightarrow> DomainSupport \<Rightarrow> fault + DomainSupport" where
  "canonical_slots qp_index numDomains domainSets [] slots = Inr slots"
| "canonical_slots qp_index numDomains domainSets (i # rest) slots =
     (let qp_idx = qp_index i
      in if \<not> qp_idx < numDomains
         then Inl (AssertionFailed ''qp_idx >= 0 && qp_idx < numDomains'')
         else if \<not> i < length slots \<or> \<not> qp_idx < length domainSets then Inl OutOfRange
         else canonical_slots qp_index numDomains domainSets rest
                (slots[i := slots ! i \<union> domainSets ! qp_idx]))"

definition canonical_aggregate_each_domain ::
  "('q \<Rightarrow> nat) \<Rightarrow> ('q \<Rightarrow> 32 word) \<Rightarrow> ('q \<Rightarrow> 'c CPattern) \<Rightarrow> ('c \<Rightarrow> 32 word) \<Rightarrow>
   'q \<Rightarrow> DomainSupport \<Rightarrow> 'c CgMapDomain \<Rightarrow> UintMap \<Rightarrow> fault + ('c CgMapDomain \<times> UintMap)" where
  "canonical_aggregate_each_domain get_size get_qp_id canonical_oracle get_cg_id
     qp domainSets cg_map id_map =
     (if get_size qp \<noteq> length domainSets
      then Inl (AssertionFailed ''qp.get_size() == domainSets.size()'')
      else
        (let numDomains = get_size qp
         in case turn_canonical_graph get_size canonical_oracle qp False of
              Inl f \<Rightarrow> Inl f
            | Inr cg \<Rightarrow>
                (let qp_id = get_qp_id qp;
                     cg_id = get_cg_id (canonical_form cg);
                     id_map' = insert_pair qp_id cg_id id_map;
                     slots = (case map_of cg_map (canonical_form cg) of
                                None \<Rightarrow> replicate numDomains {}
                              | Some old \<Rightarrow> old)
                 in case canonical_slots (get_quick_pattern_index cg) numDomains domainSets
                           [0 ..< numDomains] slots of
                      Inl f \<Rightarrow> Inl f
                    | Inr slots' \<Rightarrow>
                        Inr (AList.update (canonical_form cg) slots' cg_map, id_map'))))"

text \<open>
  The slots of the canonical pattern before the call: the entry of the map, or, when there is
  none, the \<open>n\<close> empty slots that \<^verbatim>\<open>resize\<close> creates.
\<close>

definition slots_before :: "'c CgMapDomain \<Rightarrow> 'c \<Rightarrow> nat \<Rightarrow> DomainSupport" where
  "slots_before cg_map c n =
     (case map_of cg_map c of None \<Rightarrow> replicate n {} | Some old \<Rightarrow> old)"

text \<open>An oracle for the examples: slot 0 and slot 1 of a quick pattern are exchanged.\<close>

definition exchange :: "nat \<Rightarrow> nat" where
  "exchange i = (if i = 0 then 1 else if i = 1 then 0 else i)"

definition exchanging_oracle :: "nat \<Rightarrow> nat CPattern" where
  "exchanging_oracle qp = \<lparr>canonical_form = 5, get_quick_pattern_index = exchange\<rparr>"

text \<open>A quick pattern for the examples: the number of elements of the embedding.\<close>

definition size_pattern :: "nat \<Rightarrow> nat" where
  "size_pattern qp = qp"

section \<open>Filtering through the canonical map\<close>

text \<open>
  \<^verbatim>\<open>filter\<close> and \<^verbatim>\<open>filter_each\<close> for a frequency map.  The embedding is turned into its quick
  pattern (\<open>quick_pattern\<close>, the constructor \<^verbatim>\<open>QPattern qp(emb)\<close>) and that into its canonical
  pattern by \<^verbatim>\<open>turn_canonical_graph\<close>.  \<^verbatim>\<open>filter\<close> asserts that the canonical pattern is a key of
  the map; in \<^verbatim>\<open>filter_each\<close> the assertion is commented out, and \<^verbatim>\<open>cg_map[*cf]\<close> adds an absent
  key with the value 0.  The map is passed by reference: the result holds the map as it is
  left.
\<close>

definition filter_each_freq ::
  "32 word \<Rightarrow> (EdgeEmbedding \<Rightarrow> 'q) \<Rightarrow> ('q \<Rightarrow> nat) \<Rightarrow> ('q \<Rightarrow> 'c CPattern) \<Rightarrow> EdgeEmbedding
   \<Rightarrow> 'c CgMapFreq \<Rightarrow> EdgeEmbeddingQueue \<Rightarrow> fault + ('c CgMapFreq \<times> EdgeEmbeddingQueue)" where
  "filter_each_freq threshold quick_pattern get_size canonical_oracle emb cg_map out_queue =
     (let qp = quick_pattern emb
      in case turn_canonical_graph get_size canonical_oracle qp False of
           Inl f \<Rightarrow> Inl f
         | Inr cf \<Rightarrow>
             (case subscript cg_map (canonical_form cf) 0 of
                (freq, cg_map') \<Rightarrow>
                  Inr (cg_map', if freq \<ge> threshold then out_queue @ [emb] else out_queue)))"

fun filter_freq ::
  "32 word \<Rightarrow> (EdgeEmbedding \<Rightarrow> 'q) \<Rightarrow> ('q \<Rightarrow> nat) \<Rightarrow> ('q \<Rightarrow> 'c CPattern) \<Rightarrow> EdgeEmbeddingQueue
   \<Rightarrow> 'c CgMapFreq \<Rightarrow> EdgeEmbeddingQueue \<Rightarrow> fault + ('c CgMapFreq \<times> EdgeEmbeddingQueue)" where
  "filter_freq threshold quick_pattern get_size canonical_oracle [] cg_map out_queue =
     Inr (cg_map, out_queue)"
| "filter_freq threshold quick_pattern get_size canonical_oracle (emb # in_queue) cg_map
     out_queue =
     (let qp = quick_pattern emb
      in case turn_canonical_graph get_size canonical_oracle qp False of
           Inl f \<Rightarrow> Inl f
         | Inr cf \<Rightarrow>
             if map_of cg_map (canonical_form cf) = None
             then Inl (AssertionFailed ''cg_map.find(*cf) != cg_map.end()'')
             else
               (case subscript cg_map (canonical_form cf) 0 of
                  (freq, cg_map') \<Rightarrow>
                    filter_freq threshold quick_pattern get_size canonical_oracle in_queue cg_map'
                      (if freq \<ge> threshold then out_queue @ [emb] else out_queue)))"

text \<open>
  The domain variants.  The loop over the slots of the entry leaves \<^verbatim>\<open>is_frequent\<close> true unless
  some slot has fewer vertices than the threshold; \<^verbatim>\<open>cg_map[*cf]\<close> adds an absent key with an
  empty vector of slots.
\<close>

fun is_frequent_loop :: "32 word \<Rightarrow> DomainSupport \<Rightarrow> bool" where
  "is_frequent_loop threshold [] = True"
| "is_frequent_loop threshold (slot # rest) =
     (if card slot < unat threshold then False else is_frequent_loop threshold rest)"

definition filter_each_domain ::
  "32 word \<Rightarrow> (EdgeEmbedding \<Rightarrow> 'q) \<Rightarrow> ('q \<Rightarrow> nat) \<Rightarrow> ('q \<Rightarrow> 'c CPattern) \<Rightarrow> EdgeEmbedding
   \<Rightarrow> 'c CgMapDomain \<Rightarrow> EdgeEmbeddingQueue
   \<Rightarrow> fault + ('c CgMapDomain \<times> EdgeEmbeddingQueue)" where
  "filter_each_domain threshold quick_pattern get_size canonical_oracle emb cg_map out_queue =
     (let qp = quick_pattern emb
      in case turn_canonical_graph get_size canonical_oracle qp False of
           Inl f \<Rightarrow> Inl f
         | Inr cf \<Rightarrow>
             (case subscript cg_map (canonical_form cf) [] of
                (slots, cg_map') \<Rightarrow>
                  (let is_frequent = is_frequent_loop threshold slots
                   in Inr (cg_map', if is_frequent then out_queue @ [emb] else out_queue))))"

fun filter_domain ::
  "32 word \<Rightarrow> (EdgeEmbedding \<Rightarrow> 'q) \<Rightarrow> ('q \<Rightarrow> nat) \<Rightarrow> ('q \<Rightarrow> 'c CPattern) \<Rightarrow> EdgeEmbeddingQueue
   \<Rightarrow> 'c CgMapDomain \<Rightarrow> EdgeEmbeddingQueue
   \<Rightarrow> fault + ('c CgMapDomain \<times> EdgeEmbeddingQueue)" where
  "filter_domain threshold quick_pattern get_size canonical_oracle [] cg_map out_queue =
     Inr (cg_map, out_queue)"
| "filter_domain threshold quick_pattern get_size canonical_oracle (emb # in_queue) cg_map
     out_queue =
     (let qp = quick_pattern emb
      in case turn_canonical_graph get_size canonical_oracle qp False of
           Inl f \<Rightarrow> Inl f
         | Inr cf \<Rightarrow>
             if map_of cg_map (canonical_form cf) = None
             then Inl (AssertionFailed ''cg_map.find(*cf) != cg_map.end()'')
             else
               (case subscript cg_map (canonical_form cf) [] of
                  (slots, cg_map') \<Rightarrow>
                    (let is_frequent = is_frequent_loop threshold slots
                     in filter_domain threshold quick_pattern get_size canonical_oracle in_queue
                          cg_map' (if is_frequent then out_queue @ [emb] else out_queue))))"

section \<open>The graph and the state of an extension\<close>

text \<open>
  Modelled from the spec: the graph provider (\<^verbatim>\<open>Graph\<close>, declared outside miner.h) exposes the
  number of vertices (\<^verbatim>\<open>graph->size()\<close>), for every vertex the destinations of its edges in
  iteration order (\<^verbatim>\<open>graph->getEdgeDst(e)\<close> for \<^verbatim>\<open>e\<close> in \<^verbatim>\<open>graph->edges(v)\<close>), and the label of a
  vertex (\<^verbatim>\<open>graph->getData(v)\<close>).
\<close>

record Graph =
  graph_size :: nat
  edges :: "VertexId \<Rightarrow> VertexId list"
  getData :: "VertexId \<Rightarrow> BYTE"

text \<open>
  \<^verbatim>\<open>degree_counting\<close> fills \<^verbatim>\<open>degrees[v]\<close> with the number of edges of \<open>v\<close>.
\<close>

definition degrees :: "Graph \<Rightarrow> VertexId \<Rightarrow> nat" where
  "degrees g v = length (edges g v)"

text \<open>
  Modelled from the spec: \<^verbatim>\<open>BaseEmbedding\<close> and \<^verbatim>\<open>VertexEmbedding\<close> (declared outside miner.h)
  are the vertex-only embeddings, ordered sequences of vertex identifiers.
\<close>

type_synonym BaseEmbedding = "VertexId list"
type_synonym VertexEmbedding = "VertexId list"

definition get_vertex_base :: "VertexId list \<Rightarrow> nat \<Rightarrow> fault + VertexId" where
  "get_vertex_base emb i = (if i < length emb then Inr (emb ! i) else Inl OutOfRange)"

definition push_back :: "'a \<Rightarrow> 'a list \<Rightarrow> 'a list" where
  "push_back x xs = xs @ [x]"

definition pop_back :: "'a list \<Rightarrow> 'a list" where
  "pop_back xs = butlast xs"

text \<open>
  What an extension operation can reach: the graph, its own copy of the embedding (the
  parameter \<^verbatim>\<open>emb\<close> is passed by value), the output queue, and the accumulator \<^verbatim>\<open>num\<close> of
  \<^verbatim>\<open>extend_vertex_clique\<close>.
\<close>

record 'e extension =
  graph_of :: Graph
  emb_of :: 'e
  queue_of :: "'e list"
  num_of :: "32 word"

text \<open>
  The unsigned \<^verbatim>\<open>n - 1\<close>, which wraps for \<open>n = 0\<close>.
\<close>

definition minus_one :: "nat \<Rightarrow> nat" where
  "minus_one n = (if n = 0 then 4294967295 else n - 1)"

section \<open>Connectivity\<close>

text \<open>The edge loops of \<^verbatim>\<open>is_connected\<close>: leave with true at the first edge to the target.\<close>

fun connected_loop :: "VertexId list \<Rightarrow> VertexId \<Rightarrow> bool" where
  "connected_loop [] target = False"
| "connected_loop (dst # rest) target =
     (if dst = target then True else connected_loop rest target)"

definition is_connected :: "Graph \<Rightarrow> VertexId \<Rightarrow> VertexId \<Rightarrow> bool" where
  "is_connected g from to =
     (if degrees g from < degrees g to then connected_loop (edges g from) to
      else connected_loop (edges g to) from)"

text \<open>
  \<^verbatim>\<open>is_all_connected\<close>: the loop runs over the indices below the unsigned \<^verbatim>\<open>n - 1\<close> and leaves
  with false at the first vertex that is not connected to \<open>dst\<close>.
\<close>

fun all_connected_loop :: "Graph \<Rightarrow> VertexId \<Rightarrow> BaseEmbedding \<Rightarrow> nat list \<Rightarrow> fault + bool" where
  "all_connected_loop g dst emb [] = Inr True"
| "all_connected_loop g dst emb (i # rest) =
     (case get_vertex_base emb i of
        Inl f \<Rightarrow> Inl f
      | Inr from \<Rightarrow>
          if \<not> is_connected g from dst then Inr False
          else all_connected_loop g dst emb rest)"

definition is_all_connected :: "Graph \<Rightarrow> VertexId \<Rightarrow> BaseEmbedding \<Rightarrow> fault + bool" where
  "is_all_connected g dst emb =
     (let n = length emb in all_connected_loop g dst emb [0 ..< minus_one n])"

section \<open>Vertex extension for cliques\<close>

text \<open>
  \<^verbatim>\<open>emb.push_back(dst); queue.push_back(emb); emb.pop_back();\<close> on a vertex embedding.
\<close>

definition emit_vertex :: "VertexId \<Rightarrow> VertexId list extension \<Rightarrow> VertexId list extension" where
  "emit_vertex dst s =
     (let s1 = s\<lparr>emb_of := push_back dst (emb_of s)\<rparr>;
          s2 = s1\<lparr>queue_of := push_back (emb_of s1) (queue_of s1)\<rparr>
      in s2\<lparr>emb_of := pop_back (emb_of s2)\<rparr>)"

fun extend_vertex_edges ::
  "nat \<Rightarrow> VertexId list \<Rightarrow> BaseEmbedding extension \<Rightarrow> fault + BaseEmbedding extension" where
  "extend_vertex_edges n [] s = Inr s"
| "extend_vertex_edges n (dst # rest) s =
     (case get_vertex_base (emb_of s) (minus_one n) of
        Inl f \<Rightarrow> Inl f
      | Inr last_vertex \<Rightarrow>
          if dst > last_vertex then extend_vertex_edges n rest (emit_vertex dst s)
          else extend_vertex_edges n rest s)"

fun extend_vertex_loop ::
  "nat \<Rightarrow> nat list \<Rightarrow> BaseEmbedding extension \<Rightarrow> fault + BaseEmbedding extension" where
  "extend_vertex_loop n [] s = Inr s"
| "extend_vertex_loop n (i # rest) s =
     (case get_vertex_base (emb_of s) i of
        Inl f \<Rightarrow> Inl f
      | Inr v \<Rightarrow>
          (case extend_vertex_edges n (edges (graph_of s) v) s of
             Inl f \<Rightarrow> Inl f
           | Inr s' \<Rightarrow> extend_vertex_loop n rest s'))"

definition extend_vertex :: "BaseEmbedding extension \<Rightarrow> fault + BaseEmbedding extension" where
  "extend_vertex s = (let n = length (emb_of s) in extend_vertex_loop n [0 ..< n] s)"

fun extend_vertex_clique_edges ::
  "bool \<Rightarrow> VertexId \<Rightarrow> VertexId list \<Rightarrow> BaseEmbedding extension
   \<Rightarrow> fault + BaseEmbedding extension" where
  "extend_vertex_clique_edges need_update src [] s = Inr s"
| "extend_vertex_clique_edges need_update src (dst # rest) s =
     (if dst > src then
        (case is_all_connected (graph_of s) dst (emb_of s) of
           Inl f \<Rightarrow> Inl f
         | Inr all_connected \<Rightarrow>
             if all_connected then
               (let s1 = s\<lparr>num_of := num_of s + 1\<rparr>
                in if need_update
                   then extend_vertex_clique_edges need_update src rest (emit_vertex dst s1)
                   else extend_vertex_clique_edges need_update src rest s1)
             else extend_vertex_clique_edges need_update src rest s)
      else extend_vertex_clique_edges need_update src rest s)"

definition extend_vertex_clique ::
  "bool \<Rightarrow> BaseEmbedding extension \<Rightarrow> fault + BaseEmbedding extension" where
  "extend_vertex_clique need_update s =
     (let n = length (emb_of s)
      in case get_vertex_base (emb_of s) (minus_one n) of
           Inl f \<Rightarrow> Inl f
         | Inr src \<Rightarrow> extend_vertex_clique_edges need_update src (edges (graph_of s) src) s)"




text \<open>The triangle on the vertices 0, 1 and 2, and the extension of the embedding \<open>(0, 1)\<close>.\<close>

definition triangle_edges :: "VertexId \<Rightarrow> VertexId list" where
  "triangle_edges v =
     (if v = 0 then [1, 2] else if v = 1 then [0, 2] else if v = 2 then [0, 1] else [])"

definition no_label :: "VertexId \<Rightarrow> BYTE" where
  "no_label v = 0"

definition triangle :: Graph where
  "triangle = \<lparr>graph_size = 3, edges = triangle_edges, getData = no_label\<rparr>"

definition triangle_01 :: "BaseEmbedding extension" where
  "triangle_01 = \<lparr>graph_of = triangle, emb_of = [0, 1], queue_of = [], num_of = 0\<rparr>"

section \<open>Vertex extension for motifs\<close>

text \<open>
  The loops of \<^verbatim>\<open>is_vertexInduced_automorphism\<close>.  A loop over the indices from \<open>k\<close> up to the
  size runs over the vertices of \<open>drop k emb\<close>.  \<open>vertex_existed_loop\<close> looks for \<open>dst\<close> from
  index 1 on; \<open>below_second_loop\<close> is the loop whose body compares \<open>dst\<close> with
  \<^verbatim>\<open>emb.get_vertex(1)\<close> in every round; \<open>first_connected\<close> finds the first index whose vertex is
  connected to \<open>dst\<close> (or keeps the initial \<^verbatim>\<open>first\<close>); \<open>later_greater_loop\<close> returns true at the
  first later vertex greater than \<open>dst\<close>.
\<close>

fun vertex_existed_loop :: "VertexId list \<Rightarrow> VertexId \<Rightarrow> bool" where
  "vertex_existed_loop [] dst = False"
| "vertex_existed_loop (v # rest) dst = (if dst = v then True else vertex_existed_loop rest dst)"

fun below_second_loop :: "VertexEmbedding \<Rightarrow> VertexId \<Rightarrow> VertexId list \<Rightarrow> fault + bool" where
  "below_second_loop emb dst [] = Inr False"
| "below_second_loop emb dst (v # rest) =
     (case get_vertex_base emb 1 of
        Inl f \<Rightarrow> Inl f
      | Inr v1 \<Rightarrow> if dst < v1 then Inr True else below_second_loop emb dst rest)"

fun first_connected :: "Graph \<Rightarrow> VertexId \<Rightarrow> VertexId list \<Rightarrow> nat \<Rightarrow> nat \<Rightarrow> nat" where
  "first_connected g dst [] i first = first"
| "first_connected g dst (v # rest) i first =
     (if is_connected g v dst then i else first_connected g dst rest (Suc i) first)"

fun later_greater_loop :: "VertexId \<Rightarrow> VertexId list \<Rightarrow> bool" where
  "later_greater_loop dst [] = False"
| "later_greater_loop dst (v # rest) = (if dst < v then True else later_greater_loop dst rest)"

definition general_positions :: "Graph \<Rightarrow> VertexEmbedding \<Rightarrow> VertexId \<Rightarrow> bool" where
  "general_positions g emb dst =
     (let n = length emb;
          first = first_connected g dst emb 0 (minus_one n)
      in later_greater_loop dst (drop (first + 1) emb))"

text \<open>
  \<^verbatim>\<open>is_vertexInduced_automorphism\<close>.  In the block for \<^verbatim>\<open>idx == 0\<close> the statement
  \<^verbatim>\<open>return false\<close> is the body of \<^verbatim>\<open>if (is_connected(emb.get_vertex(1), dst))\<close>; when the
  vertices are not connected, control leaves the block and reaches the general rule.
\<close>

definition is_vertexInduced_automorphism ::
  "Graph \<Rightarrow> VertexEmbedding \<Rightarrow> nat \<Rightarrow> VertexId \<Rightarrow> VertexId \<Rightarrow> fault + bool" where
  "is_vertexInduced_automorphism g emb idx src dst =
     (case get_vertex_base emb 0 of
        Inl f \<Rightarrow> Inl f
      | Inr v0 \<Rightarrow>
          if dst \<le> v0 then Inr True
          else if vertex_existed_loop (drop 1 emb) dst then Inr True
          else if idx = 0 then
            (case below_second_loop emb dst (drop 1 emb) of
               Inl f \<Rightarrow> Inl f
             | Inr below \<Rightarrow>
                 if below then Inr True
                 else
                   (case get_vertex_base emb 1 of
                      Inl f \<Rightarrow> Inl f
                    | Inr v1 \<Rightarrow>
                        if is_connected g v1 dst then Inr False
                        else Inr (general_positions g emb dst)))
          else if idx = 1 then
            (if is_connected g v0 dst then Inr True
             else below_second_loop emb dst (drop 2 emb))
          else Inr (general_positions g emb dst))"

fun extend_vertex_motif_edges ::
  "nat \<Rightarrow> VertexId \<Rightarrow> VertexId list \<Rightarrow> VertexEmbedding extension
   \<Rightarrow> fault + VertexEmbedding extension" where
  "extend_vertex_motif_edges i src [] s = Inr s"
| "extend_vertex_motif_edges i src (dst # rest) s =
     (case is_vertexInduced_automorphism (graph_of s) (emb_of s) i src dst of
        Inl f \<Rightarrow> Inl f
      | Inr automorphism \<Rightarrow>
          if \<not> automorphism then extend_vertex_motif_edges i src rest (emit_vertex dst s)
          else extend_vertex_motif_edges i src rest s)"

fun extend_vertex_motif_loop ::
  "nat list \<Rightarrow> VertexEmbedding extension \<Rightarrow> fault + VertexEmbedding extension" where
  "extend_vertex_motif_loop [] s = Inr s"
| "extend_vertex_motif_loop (i # rest) s =
     (case get_vertex_base (emb_of s) i of
        Inl f \<Rightarrow> Inl f
      | Inr src \<Rightarrow>
          (case extend_vertex_motif_edges i src (edges (graph_of s) src) s of
             Inl f \<Rightarrow> Inl f
           | Inr s' \<Rightarrow> extend_vertex_motif_loop rest s'))"

definition extend_vertex_motif ::
  "VertexEmbedding extension \<Rightarrow> fault + VertexEmbedding extension" where
  "extend_vertex_motif s = (let n = length (emb_of s) in extend_vertex_motif_loop [0 ..< n] s)"

section \<open>Edge extension\<close>

text \<open>
  \<^verbatim>\<open>emb.push_back(new_element); queue.push_back(emb); emb.pop_back();\<close> on an edge embedding.
\<close>

definition emit_edge ::
  "ElementType \<Rightarrow> EdgeEmbedding extension \<Rightarrow> EdgeEmbedding extension" where
  "emit_edge new_element s =
     (let s1 = s\<lparr>emb_of := (emb_of s)\<lparr>elements := push_back new_element (elements (emb_of s))\<rparr>\<rparr>;
          s2 = s1\<lparr>queue_of := push_back (emb_of s1) (queue_of s1)\<rparr>
      in s2\<lparr>emb_of := (emb_of s2)\<lparr>elements := pop_back (elements (emb_of s2))\<rparr>\<rparr>)"

text \<open>
  The edge loop of \<^verbatim>\<open>extend_edge\<close> for the vertex \<open>v\<close> at index \<open>i\<close> (\<^verbatim>\<open>id\<close> in the source).
  \<open>enable_label\<close> stands for the macro \<^verbatim>\<open>ENABLE_LABEL\<close>.  The test
  \<^verbatim>\<open>num_vertices <= max_size && !is_automorphism(...)\<close> calls \<^verbatim>\<open>is_automorphism\<close> only when its
  first half holds; the index \<open>i\<close> is passed as a \<^verbatim>\<open>BYTE\<close>.
\<close>

fun extend_edge_edges ::
  "nat \<Rightarrow> bool \<Rightarrow> VertexId set \<Rightarrow> nat \<Rightarrow> VertexId \<Rightarrow> VertexId list \<Rightarrow> EdgeEmbedding extension
   \<Rightarrow> fault + EdgeEmbedding extension" where
  "extend_edge_edges max_size enable_label vertices_set i v [] s = Inr s"
| "extend_edge_edges max_size enable_label vertices_set i v (dst # rest) s =
     (let dst_label = (if enable_label then getData (graph_of s) dst else 0);
          vertex_existed = (dst \<in> vertices_set);
          num_vertices = (if vertex_existed then card vertices_set else card vertices_set + 1)
      in if num_vertices \<le> max_size then
           (case is_automorphism (emb_of s) (of_nat i) v dst vertex_existed of
              Inl f \<Rightarrow> Inl f
            | Inr automorphism \<Rightarrow>
                if \<not> automorphism then
                  extend_edge_edges max_size enable_label vertices_set i v rest
                    (emit_edge
                       \<lparr>vertex_id = dst, key = of_nat num_vertices, edge_label = 0,
                        vertex_label = dst_label, history_info = of_nat i\<rparr> s)
                else extend_edge_edges max_size enable_label vertices_set i v rest s)
         else extend_edge_edges max_size enable_label vertices_set i v rest s)"

text \<open>
  The vertex loop: \<open>seen\<close> is the local \<^verbatim>\<open>set\<close> that lets every distinct vertex be expanded once.
\<close>

fun extend_edge_loop ::
  "nat \<Rightarrow> bool \<Rightarrow> VertexId set \<Rightarrow> nat list \<Rightarrow> VertexId set \<Rightarrow> EdgeEmbedding extension
   \<Rightarrow> fault + EdgeEmbedding extension" where
  "extend_edge_loop max_size enable_label vertices_set [] seen s = Inr s"
| "extend_edge_loop max_size enable_label vertices_set (i # rest) seen s =
     (case get_vertex (emb_of s) i of
        Inl f \<Rightarrow> Inl f
      | Inr v \<Rightarrow>
          if \<not> unat v < graph_size (graph_of s)
          then Inl (AssertionFailed ''id >= 0 && id < graph->size()'')
          else if v \<notin> seen then
            (case extend_edge_edges max_size enable_label vertices_set i v
                    (edges (graph_of s) v) s of
               Inl f \<Rightarrow> Inl f
             | Inr s' \<Rightarrow>
                 extend_edge_loop max_size enable_label vertices_set rest (insert v seen) s')
          else extend_edge_loop max_size enable_label vertices_set rest seen s)"

definition extend_edge ::
  "nat \<Rightarrow> bool \<Rightarrow> EdgeEmbedding extension \<Rightarrow> fault + EdgeEmbedding extension" where
  "extend_edge max_size enable_label s =
     (let size = size_emb (emb_of s);
          vertices_set = fold (\<lambda>e vs. insert (vertex_id e) vs) (elements (emb_of s)) {}
      in extend_edge_loop max_size enable_label vertices_set [0 ..< size] {} s)"

text \<open>
  The frame of an extension, in the words of the specification: the graph and the embedding
  are as before, and the output queue is as before, followed by extended copies of the
  embedding.
\<close>

definition frame_vertex :: "VertexId list extension \<Rightarrow> VertexId list extension \<Rightarrow> bool" where
  "frame_vertex s s' =
     (graph_of s' = graph_of s \<and> emb_of s' = emb_of s
      \<and> (\<exists>new. queue_of s' = queue_of s @ new \<and> (\<forall>e\<in>set new. \<exists>x. e = emb_of s @ [x])))"

definition frame_edge :: "EdgeEmbedding extension \<Rightarrow> EdgeEmbedding extension \<Rightarrow> bool" where
  "frame_edge s s' =
     (graph_of s' = graph_of s \<and> emb_of s' = emb_of s
      \<and> (\<exists>new. queue_of s' = queue_of s @ new
            \<and> (\<forall>e\<in>set new. \<exists>x. e = (emb_of s)\<lparr>elements := elements (emb_of s) @ [x]\<rparr>)))"

text \<open>The edge from vertex 0 to vertex 1 of the triangle, as an edge embedding.\<close>

definition emb_0_1 :: EdgeEmbedding where
  "emb_0_1 =
     \<lparr>elements =
        [\<lparr>vertex_id = 0, key = 1, edge_label = 0, vertex_label = 0, history_info = 0\<rparr>,
         \<lparr>vertex_id = 1, key = 2, edge_label = 0, vertex_label = 0, history_info = 0\<rparr>],
      qp_id = 0\<rparr>"

definition triangle_edge_01 :: "EdgeEmbedding extension" where
  "triangle_edge_01 = \<lparr>graph_of = triangle, emb_of = emb_0_1, queue_of = [], num_of = 0\<rparr>"

section \<open>Quick-pattern aggregation\<close>

text \<open>
  A hash map from quick patterns that miner.h only searches and updates is a finite map.
  \<open>quick_pattern\<close> is the constructor \<^verbatim>\<open>QPattern qp(emb)\<close>, \<open>get_id\<close> the id of a quick pattern.
\<close>

type_synonym 'q QpMapFreq = "'q \<rightharpoonup> Frequency"
type_synonym 'q QpMapDomain = "'q \<rightharpoonup> DomainSupport"

fun quick_aggregate_freq ::
  "(EdgeEmbedding \<Rightarrow> 'q) \<Rightarrow> EdgeEmbeddingQueue \<Rightarrow> 'q QpMapFreq \<Rightarrow> 'q QpMapFreq" where
  "quick_aggregate_freq quick_pattern [] qp_map = qp_map"
| "quick_aggregate_freq quick_pattern (emb # rest) qp_map =
     (let qp = quick_pattern emb
      in quick_aggregate_freq quick_pattern rest
           (case qp_map qp of
              Some c \<Rightarrow> qp_map(qp \<mapsto> c + 1)
            | None \<Rightarrow> qp_map(qp \<mapsto> 1)))"

definition quick_aggregate_each_freq ::
  "(EdgeEmbedding \<Rightarrow> 'q) \<Rightarrow> ('q \<Rightarrow> 32 word) \<Rightarrow> EdgeEmbedding \<Rightarrow> 'q QpMapFreq
   \<Rightarrow> EdgeEmbedding \<times> 'q QpMapFreq" where
  "quick_aggregate_each_freq quick_pattern get_id emb qp_map =
     (let qp = quick_pattern emb
      in case qp_map qp of
           Some c \<Rightarrow> (emb\<lparr>qp_id := get_id qp\<rparr>, qp_map(qp \<mapsto> c + 1))
         | None \<Rightarrow> (emb\<lparr>qp_id := get_id qp\<rparr>, qp_map(qp \<mapsto> 1)))"

text \<open>
  The loop \<^verbatim>\<open>qp_map[qp][i].insert(emb.get_vertex(i))\<close> over the indices of the embedding, on
  the slots of the entry of the quick pattern.
\<close>

fun insert_vertices :: "EdgeEmbedding \<Rightarrow> nat list \<Rightarrow> DomainSupport \<Rightarrow> fault + DomainSupport" where
  "insert_vertices emb [] slots = Inr slots"
| "insert_vertices emb (i # rest) slots =
     (case get_vertex emb i of
        Inl f \<Rightarrow> Inl f
      | Inr v \<Rightarrow>
          if i < length slots then insert_vertices emb rest (slots[i := insert v (slots ! i)])
          else Inl OutOfRange)"

fun quick_aggregate_domain ::
  "(EdgeEmbedding \<Rightarrow> 'q) \<Rightarrow> EdgeEmbeddingQueue \<Rightarrow> 'q QpMapDomain \<Rightarrow> fault + 'q QpMapDomain" where
  "quick_aggregate_domain quick_pattern [] qp_map = Inr qp_map"
| "quick_aggregate_domain quick_pattern (emb # rest) qp_map =
     (let qp = quick_pattern emb
      in case qp_map qp of
           Some slots \<Rightarrow>
             (case insert_vertices emb [0 ..< size_emb emb] slots of
                Inl f \<Rightarrow> Inl f
              | Inr slots' \<Rightarrow> quick_aggregate_domain quick_pattern rest (qp_map(qp \<mapsto> slots')))
         | None \<Rightarrow>
             (case insert_vertices emb [0 ..< size_emb emb] (replicate (size_emb emb) {}) of
                Inl f \<Rightarrow> Inl f
              | Inr slots' \<Rightarrow> quick_aggregate_domain quick_pattern rest (qp_map(qp \<mapsto> slots'))))"

definition quick_aggregate_each_domain ::
  "(EdgeEmbedding \<Rightarrow> 'q) \<Rightarrow> ('q \<Rightarrow> 32 word) \<Rightarrow> EdgeEmbedding \<Rightarrow> 'q QpMapDomain
   \<Rightarrow> fault + (EdgeEmbedding \<times> 'q QpMapDomain)" where
  "quick_aggregate_each_domain quick_pattern get_id emb qp_map =
     (let qp = quick_pattern emb;
          slots = (case qp_map qp of None \<Rightarrow> replicate (size_emb emb) {} | Some slots \<Rightarrow> slots);
          emb' = emb\<lparr>qp_id := get_id qp\<rparr>
      in case insert_vertices emb' [0 ..< size_emb emb'] slots of
           Inl f \<Rightarrow> Inl f
         | Inr slots' \<Rightarrow> Inr (emb', qp_map(qp \<mapsto> slots')))"

text \<open>
  Modelled from the spec: the merge of the local maps of the accumulation contexts is not in
  miner.h.  The specification has it combine the maps by key: frequency counters are summed,
  the slots of domain sets are united slot by slot.  \<open>merge_all\<close> merges a sequence of local
  maps one after the other into an empty map.
\<close>

definition merge_freq :: "'q QpMapFreq \<Rightarrow> 'q QpMapFreq \<Rightarrow> 'q QpMapFreq" where
  "merge_freq m1 m2 =
     (\<lambda>k. case m1 k of
             None \<Rightarrow> m2 k
           | Some a \<Rightarrow> (case m2 k of None \<Rightarrow> Some a | Some b \<Rightarrow> Some (a + b)))"

definition merge_domain :: "'q QpMapDomain \<Rightarrow> 'q QpMapDomain \<Rightarrow> 'q QpMapDomain" where
  "merge_domain m1 m2 =
     (\<lambda>k. case m1 k of
             None \<Rightarrow> m2 k
           | Some a \<Rightarrow> (case m2 k of None \<Rightarrow> Some a | Some b \<Rightarrow> Some (map2 (\<union>) a b)))"

definition merge_all :: "('m \<Rightarrow> 'm \<Rightarrow> 'm) \<Rightarrow> 'm \<Rightarrow> 'm list \<Rightarrow> 'm" where
  "merge_all merge empty_map locals = fold (\<lambda>m acc. merge acc m) locals empty_map"

text \<open>
  What one context holds after aggregating a sequence of embeddings: for a quick pattern, the
  number of its embeddings, and for every index the vertices its embeddings have there.
\<close>

definition selected :: "(EdgeEmbedding \<Rightarrow> 'q) \<Rightarrow> EdgeEmbeddingQueue \<Rightarrow> 'q \<Rightarrow> EdgeEmbeddingQueue" where
  "selected quick_pattern embs k = filter (\<lambda>emb. quick_pattern emb = k) embs"

definition freq_of :: "(EdgeEmbedding \<Rightarrow> 'q) \<Rightarrow> EdgeEmbeddingQueue \<Rightarrow> 'q QpMapFreq" where
  "freq_of quick_pattern embs k =
     (if selected quick_pattern embs k = [] then None
      else Some (of_nat (length (selected quick_pattern embs k))))"

definition slots_of :: "EdgeEmbeddingQueue \<Rightarrow> DomainSupport" where
  "slots_of sel =
     map (\<lambda>i. (\<lambda>emb. vertex_id (elements emb ! i)) ` set sel) [0 ..< size_emb (hd sel)]"

definition domain_of :: "(EdgeEmbedding \<Rightarrow> 'q) \<Rightarrow> EdgeEmbeddingQueue \<Rightarrow> 'q QpMapDomain" where
  "domain_of quick_pattern embs k =
     (if selected quick_pattern embs k = [] then None
      else Some (slots_of (selected quick_pattern embs k)))"

text \<open>Embeddings with the same quick pattern have the same size.\<close>

definition same_size :: "(EdgeEmbedding \<Rightarrow> 'q) \<Rightarrow> EdgeEmbedding set \<Rightarrow> bool" where
  "same_size quick_pattern E =
     (\<forall>a\<in>E. \<forall>b\<in>E. quick_pattern a = quick_pattern b \<longrightarrow> size_emb a = size_emb b)"

text \<open>A second embedding of two elements: the edge from vertex 2 to vertex 5.\<close>

definition emb_2_5 :: EdgeEmbedding where
  "emb_2_5 =
     \<lparr>elements =
        [\<lparr>vertex_id = 2, key = 1, edge_label = 0, vertex_label = 0, history_info = 0\<rparr>,
         \<lparr>vertex_id = 5, key = 2, edge_label = 0, vertex_label = 0, history_info = 0\<rparr>],
      qp_id = 0\<rparr>"

section \<open>Facts about the signed difference\<close>

lemma sint_diff_small:
  fixes x y :: "32 word"
  assumes "x < 2 ^ 31" "y < 2 ^ 31"
  shows "sint (x - y) = uint x - uint y"
proof -
  have p: "(2::int) ^ 31 = 2147483648" by simp
  have ux: "uint x < 2147483648" "uint y < 2147483648"
    using assms by (simp_all add: word_less_def)
  have lx: "- (2 ^ 31) \<le> uint x" "uint x < 2 ^ 31"
    unfolding p using ux(1) uint_ge_0 [of x] by linarith+
  have ly: "- (2 ^ 31) \<le> uint y" "uint y < 2 ^ 31"
    unfolding p using ux(2) uint_ge_0 [of y] by linarith+
  have ld: "- (2 ^ 31) \<le> uint x - uint y" "uint x - uint y < 2 ^ 31"
    unfolding p using ux uint_ge_0 [of x] uint_ge_0 [of y] by linarith+
  have sx: "sint x = uint x"
    using signed_take_bit_int_eq_self [OF lx] by (simp add: sint_uint)
  have sy: "sint y = uint y"
    using signed_take_bit_int_eq_self [OF ly] by (simp add: sint_uint)
  show ?thesis
    using signed_take_bit_int_eq_self [OF ld] by (simp add: sint_word_diff sx sy)
qed

lemma sint_diff_le_0:
  fixes x y :: "32 word"
  shows "x < 2 ^ 31 \<Longrightarrow> y < 2 ^ 31 \<Longrightarrow> (sint (x - y) \<le> 0) = (x \<le> y)"
  by (simp add: sint_diff_small word_le_def)

lemma swap_normalized: "swap e = normalized e"
  by (cases e) (auto simp: swap_def normalized_def min_def max_def)

lemma normalized_idem: "normalized (normalized e) = normalized e"
  by (cases e) (auto simp: normalized_def min_def max_def)

lemma lex_le_normalized_left: "lex_le (normalized e1) e2 = lex_le e1 e2"
  by (simp add: lex_le_def normalized_idem)

lemma normalized_small:
  "fst e < 2 ^ 31 \<Longrightarrow> snd e < 2 ^ 31 \<Longrightarrow>
   fst (normalized e) < 2 ^ 31 \<and> snd (normalized e) < 2 ^ 31"
  by (auto simp: normalized_def min_def max_def)

lemma compare_le_0:
  assumes "fst e1 < 2 ^ 31" "snd e1 < 2 ^ 31" "fst e2 < 2 ^ 31" "snd e2 < 2 ^ 31"
  shows "(fst (compare e1 e2) \<le> 0) = lex_le e1 e2"
proof -
  have n1: "fst (normalized e1) < 2 ^ 31" "snd (normalized e1) < 2 ^ 31"
    using normalized_small [OF assms(1,2)] by simp_all
  have n2: "fst (normalized e2) < 2 ^ 31" "snd (normalized e2) < 2 ^ 31"
    using normalized_small [OF assms(3,4)] by simp_all
  show ?thesis
  proof (cases "fst (normalized e1) = fst (normalized e2)")
    case True
    then show ?thesis
      using sint_diff_le_0 [OF n1(2) n2(2)]
      by (simp add: compare_def Let_def swap_normalized lex_le_def)
  next
    case False
    then show ?thesis
      using sint_diff_le_0 [OF n1(1) n2(1)]
      by (auto simp: compare_def Let_def swap_normalized lex_le_def)
  qed
qed

text \<open>
  Above \<open>2 ^ 31\<close> the difference wraps: \<^verbatim>\<open>compare\<close> is not positive for a first edge that is
  the greater one.
\<close>

lemma compare_wraps:
  "fst (compare (0x80000001, 0x80000002) (0, 1)) \<le> 0
   \<and> \<not> lex_le (0x80000001, 0x80000002) (0, 1)"
  by (simp add: compare_def swap_def lex_le_def normalized_def)

section \<open>C1: the verdict of is\_automorphism\<close>

lemma getEdge_ok:
  assumes "i < length (elements emb)"
    and "unat (history_info (elements emb ! i)) < length (elements emb)"
    and "fst (edge_of emb i) \<noteq> snd (edge_of emb i)"
  shows "getEdge emb i = Inr (edge_of emb i)"
  using assms by (simp add: getEdge_def get_history_def get_vertex_def edge_of_def)

lemma later_edges_ok:
  assumes "\<forall>i\<in>set idxs. i < length (elements emb)"
    and "\<forall>e\<in>set (elements emb). unat (history_info e) < length (elements emb)"
    and "\<forall>i\<in>set idxs. fst (edge_of emb i) \<noteq> snd (edge_of emb i)"
    and "\<forall>e\<in>set (elements emb). vertex_id e < 2 ^ 31"
    and "fst added < 2 ^ 31" "snd added < 2 ^ 31"
  shows "later_edges emb added idxs = Inr (\<exists>i\<in>set idxs. lex_le added (edge_of emb i))"
  using assms
proof (induction idxs arbitrary: added)
  case Nil
  then show ?case by simp
next
  case (Cons i idxs)
  have i: "i < length (elements emb)" using Cons.prems(1) by simp
  have h: "unat (history_info (elements emb ! i)) < length (elements emb)"
    using Cons.prems(2) i by simp
  have ge: "getEdge emb i = Inr (edge_of emb i)"
    using getEdge_ok [OF i h] Cons.prems(3) by simp
  have b: "fst (edge_of emb i) < 2 ^ 31" "snd (edge_of emb i) < 2 ^ 31"
    using Cons.prems(4) i h by (simp_all add: edge_of_def)
  have c: "(fst (compare added (edge_of emb i)) \<le> 0) = lex_le added (edge_of emb i)"
    by (rule compare_le_0 [OF Cons.prems(5,6) b])
  have s: "fst (snd (compare added (edge_of emb i))) = normalized added"
    by (simp add: compare_def Let_def swap_normalized)
  have ns: "fst (normalized added) < 2 ^ 31" "snd (normalized added) < 2 ^ 31"
    using normalized_small [OF Cons.prems(5,6)] by simp_all
  have ih: "later_edges emb (normalized added) idxs
            = Inr (\<exists>i\<in>set idxs. lex_le added (edge_of emb i))"
    using Cons.IH [of "normalized added"] Cons.prems(1,2,3,4) ns
    by (simp add: lex_le_normalized_left)
  show ?case
    using ge c s ih by (auto split: prod.splits)
qed

text \<open>
  C1, as the code has it.  Take an edge embedding whose history indices point inside it, an
  extension point \<open>history\<close> inside it, no edge after the extension point with equal end points
  (the assertion of \<^verbatim>\<open>getEdge\<close>), and vertex identifiers below \<open>2 ^ 31\<close> (so that the difference
  returned by \<^verbatim>\<open>compare\<close> has the sign of the comparison).  Then \<^verbatim>\<open>is_automorphism\<close> returns,
  and it returns true exactly when \<open>dst\<close> is smaller than the first vertex, or \<open>dst\<close> is the vertex
  named by the history of the extension point, or the destination existed and \<open>src > dst\<close>, or
  the candidate edge \<open>(src, dst)\<close> is less than or equal to some edge after the extension point,
  in the lexicographic order of the pairs normalised to (smaller, larger).  The statement holds
  for every \<open>src\<close> and every value of the flag \<open>vertex_existed\<close>, so also for
  \<open>src = get_vertex history\<close> and the flag computed by \<^verbatim>\<open>extend_edge\<close>.
\<close>

theorem is_automorphism_amended:
  assumes "unat history < length (elements emb)"
    and "\<forall>e\<in>set (elements emb). unat (history_info e) < length (elements emb)"
    and "\<forall>i\<in>{unat history<..<length (elements emb)}. fst (edge_of emb i) \<noteq> snd (edge_of emb i)"
    and "\<forall>e\<in>set (elements emb). vertex_id e < 2 ^ 31"
    and "src < 2 ^ 31" "dst < 2 ^ 31"
  shows "is_automorphism emb history src dst vertex_existed =
           Inr (dst < vertex_id (elements emb ! 0)
                \<or> dst = vertex_id (elements emb ! unat (history_info (elements emb ! unat history)))
                \<or> (vertex_existed \<and> src > dst)
                \<or> (\<exists>i\<in>{unat history<..<length (elements emb)}. lex_le (src, dst) (edge_of emb i)))"
proof -
  let ?n = "length (elements emb)"
  have s: "set [unat history + 1 ..< ?n] = {unat history<..<?n}" by auto
  have le: "later_edges emb (src, dst) [unat history + 1 ..< ?n]
            = Inr (\<exists>i\<in>{unat history<..<?n}. lex_le (src, dst) (edge_of emb i))"
    using later_edges_ok [of "[unat history + 1 ..< ?n]" emb "(src, dst)"] assms
    unfolding s by simp
  have h: "unat (history_info (elements emb ! unat history)) < ?n"
    using assms(1,2) by simp
  show ?thesis
    using assms(1) h le
    by (auto simp: is_automorphism_def get_vertex_def get_history_def size_emb_def)
qed

theorem is_automorphism_amended_witness:
  "is_automorphism emb_1_3 0 1 2 False = Inr True"
proof -
  have r: "{0<..<Suc (Suc 0)} = {Suc 0}" by auto
  show ?thesis
    using is_automorphism_amended [of 0 emb_1_3 1 2 False]
    by (simp add: emb_1_3_def edge_of_def lex_le_def normalized_def r)
qed

text \<open>
  C1 as it is worded asks for an edge after the extension point that is less than or equal to
  the candidate.  On the embedding with the single edge \<open>(1, 3)\<close>, extended at index 0 by the
  edge \<open>(1, 2)\<close> to a new vertex, the code rejects, although none of the four conditions of the
  claim holds: the only later edge \<open>(1, 3)\<close> is greater than the candidate.
\<close>

theorem is_automorphism_counterexample:
  "is_automorphism emb_1_3 0 1 2 False = Inr True
   \<and> \<not> (2 < vertex_id (elements emb_1_3 ! 0))
   \<and> \<not> (2 = vertex_id (elements emb_1_3 ! unat (history_info (elements emb_1_3 ! unat (0::BYTE)))))
   \<and> \<not> (False \<and> (1::VertexId) > 2)
   \<and> \<not> lex_le (edge_of emb_1_3 1) (1, 2)"
  by (simp add: is_automorphism_def get_vertex_def get_history_def size_emb_def
      getEdge_def compare_def swap_def emb_1_3_def edge_of_def lex_le_def normalized_def)

section \<open>C2 and C10: minimum-image support\<close>

lemma unat_of_nat_below:
  fixes a :: "32 word"
  assumes "n < unat a"
  shows "unat (of_nat n :: 32 word) = n"
proof -
  have "unat a < 2 ^ LENGTH(32)" by (rule unsigned_less)
  with assms have "n < 2 ^ LENGTH(32)" by (rule less_trans)
  then show ?thesis by (rule of_nat_inverse [OF refl])
qed

lemma get_support_fold_min:
  fixes a :: "32 word"
  shows "unat (fold (\<lambda>s support. if card s < unat support then of_nat (card s) else support) ds a)
         = fold min (map card ds) (unat a)"
proof (induction ds arbitrary: a)
  case Nil
  then show ?case by simp
next
  case (Cons s ds)
  show ?case
  proof (cases "card s < unat a")
    case True
    then show ?thesis
      using Cons.IH [of "of_nat (card s)"] unat_of_nat_below [OF True]
      by (simp add: min_def)
  next
    case False
    then show ?thesis
      using Cons.IH [of a] by (simp add: min_def)
  qed
qed

lemma get_support_min:
  assumes "ds \<noteq> []" and "Min (card ` set ds) \<le> 4294967295"
  shows "unat (get_support ds) = Min (card ` set ds)"
proof -
  have "unat (get_support ds) = fold min (map card ds) (unat (0xFFFFFFFF :: 32 word))"
    unfolding get_support_def by (rule get_support_fold_min)
  also have "\<dots> = Min (set (4294967295 # map card ds))"
    using Min.set_eq_fold [of "4294967295::nat" "map card ds"] by simp
  also have "\<dots> = min 4294967295 (Min (card ` set ds))"
    using assms(1) by (simp add: Min_insert)
  finally show ?thesis using assms(2) by simp
qed


lemma support_count_loop_eq:
  "support_count_loop threshold get_id cg_map support_map cnt =
     (cnt + of_nat (length (filter (\<lambda>(cg, ds). threshold \<le> get_support ds) cg_map)),
      map_of (map (\<lambda>(cg, ds). (get_id cg, get_support ds)) cg_map) ++ support_map)"
proof (induction cg_map arbitrary: support_map cnt)
  case Nil
  then show ?case by simp
next
  case (Cons e cg_map)
  obtain cg ds where e: "e = (cg, ds)" by (cases e)
  show ?case
    unfolding e
    by (auto simp: Cons.IH Let_def insert_pair_def map_add_def fun_eq_iff split: option.splits)
qed

text \<open>
  C2, as the code has it.  Take an entry of the canonical map whose domain support is a
  non-empty vector of per-slot sets, with a minimum cardinality that an \<^verbatim>\<open>unsigned\<close> can hold.
  \<^verbatim>\<open>get_support\<close> returns the minimum cardinality over the slots.  \<^verbatim>\<open>support_count\<close> returns
  the number of entries whose support reaches the threshold, which this entry does exactly
  when its minimum reaches the threshold, and it records the minimum under the id of the
  pattern when the ids of the entries differ and the support map has no entry for that id yet:
  \<^verbatim>\<open>insert\<close> keeps a value that is already there.
\<close>

theorem support_count_amended:
  assumes "(cg, ds) \<in> set cg_map"
    and "ds \<noteq> []"
    and "Min (card ` set ds) \<le> 4294967295"
    and "distinct (map (\<lambda>e. get_id (fst e)) cg_map)"
    and "support_map (get_id cg) = None"
  shows "unat (get_support ds) = Min (card ` set ds)
       \<and> snd (support_count_domain threshold get_id cg_map support_map) (get_id cg)
           = Some (get_support ds)
       \<and> fst (support_count_domain threshold get_id cg_map support_map)
           = of_nat (length (filter (\<lambda>e. threshold \<le> get_support (snd e)) cg_map))
       \<and> (threshold \<le> get_support ds) = (unat threshold \<le> Min (card ` set ds))"
proof -
  have a: "unat (get_support ds) = Min (card ` set ds)"
    by (rule get_support_min [OF assms(2,3)])
  have d: "distinct (map fst (map (\<lambda>(cg, ds). (get_id cg, get_support ds)) cg_map))"
    using assms(4) by (simp add: comp_def case_prod_unfold)
  have i: "(get_id cg, get_support ds) \<in> set (map (\<lambda>(cg, ds). (get_id cg, get_support ds)) cg_map)"
    using assms(1) by force
  have b: "map_of (map (\<lambda>(cg, ds). (get_id cg, get_support ds)) cg_map) (get_id cg)
           = Some (get_support ds)"
    by (rule map_of_is_SomeI [OF d i])
  have f: "filter (\<lambda>(cg, ds). threshold \<le> get_support ds) cg_map
           = filter (\<lambda>e. threshold \<le> get_support (snd e)) cg_map"
    by (simp add: case_prod_unfold)
  have t: "(threshold \<le> get_support ds) = (unat threshold \<le> Min (card ` set ds))"
    using a by (simp add: word_le_nat_alt)
  show ?thesis
    using a b f t assms(5)
    by (simp add: support_count_domain_def support_count_loop_eq map_add_def)
qed

theorem support_count_amended_witness:
  "unat (get_support [{1, 2}, {3}]) = Min (card ` set [{1, 2 :: VertexId}, {3}])
   \<and> snd (support_count_domain 1 of_nat [(7 :: nat, [{1, 2}, {3}])] Map.empty) 7
       = Some (get_support [{1, 2}, {3}])
   \<and> fst (support_count_domain 1 of_nat [(7 :: nat, [{1, 2 :: VertexId}, {3}])] Map.empty) = 1"
  using support_count_amended [of "7::nat" "[{1, 2}, {3}]" "[(7, [{1, 2}, {3}])]" of_nat Map.empty 1]
  by (simp add: get_support_def)

text \<open>
  C2 as it is worded does not hold for a support map that already has an entry under the id of
  the pattern: with 99 stored under id 7, the pattern with id 7 and slots \<open>{1, 2}\<close> and \<open>{3}\<close>
  has minimum 1, and the support map still holds 99 after \<^verbatim>\<open>support_count\<close>.
\<close>

theorem support_count_counterexample:
  "snd (support_count_domain 1 of_nat [(7 :: nat, [{1, 2}, {3}])] [7 \<mapsto> 99]) 7 = Some 99
   \<and> Min (card ` set [{1, 2 :: VertexId}, {3}]) = 1"
  by (simp add: support_count_domain_def insert_pair_def get_support_def)

text \<open>
  C10: on the empty vector of domain sets \<^verbatim>\<open>get_support\<close> returns \<^verbatim>\<open>0xFFFFFFFF\<close>, which is at
  least every threshold, so \<^verbatim>\<open>support_count\<close> counts such a pattern as frequent whatever the
  threshold is.
\<close>

theorem get_support_empty:
  "get_support [] = 0xFFFFFFFF
   \<and> threshold \<le> get_support []
   \<and> fst (support_count_domain threshold get_id [(cg, [])] support_map) = 1"
proof -
  have "(0xFFFFFFFF :: 32 word) = - 1" by simp
  then have m: "threshold \<le> (0xFFFFFFFF :: 32 word)"
    by (simp only: word_n1_ge)
  show ?thesis using m by (simp add: get_support_def support_count_domain_def)
qed

section \<open>C3: filtering through the id map\<close>

lemma filter_id_eq:
  assumes "\<forall>emb\<in>set in_queue. resolves id_map support_map emb"
  shows "filter_id threshold in_queue id_map support_map out_queue
         = Inr (out_queue @ filter (frequent_by_id threshold id_map support_map) in_queue)"
  using assms
proof (induction in_queue arbitrary: out_queue)
  case Nil
  then show ?case by simp
next
  case (Cons emb in_queue)
  from Cons.prems obtain cg_id support
    where l: "id_map (qp_id emb) = Some cg_id" "support_map cg_id = Some support"
    by (auto simp: resolves_def split: option.splits)
  have r: "\<forall>emb\<in>set in_queue. resolves id_map support_map emb"
    using Cons.prems by simp
  show ?case
    using l Cons.IH [OF r] by (simp add: frequent_by_id_def)
qed

text \<open>
  C3: when the quick-pattern id of every embedding of the input queue is in the id map and the
  canonical id it maps to is in the support map, \<^verbatim>\<open>filter\<close> returns, and the output queue is
  what it was before, followed by exactly those embeddings of the input queue, in their order,
  for which \<^verbatim>\<open>support_map.at(id_map.at(emb.get_qpid())) >= threshold\<close>; the others are dropped.
  \<^verbatim>\<open>filter_each\<close> does the same for one embedding.
\<close>

theorem filter_id_keeps_frequent:
  assumes "\<forall>emb\<in>set in_queue. resolves id_map support_map emb"
  shows "filter_id threshold in_queue id_map support_map out_queue
           = Inr (out_queue @ filter (frequent_by_id threshold id_map support_map) in_queue)
       \<and> (\<forall>emb\<in>set in_queue.
             filter_each_id threshold emb id_map support_map out_queue
               = Inr (if frequent_by_id threshold id_map support_map emb
                      then out_queue @ [emb] else out_queue))"
proof -
  have e: "\<forall>emb\<in>set in_queue.
             filter_each_id threshold emb id_map support_map out_queue
               = Inr (if frequent_by_id threshold id_map support_map emb
                      then out_queue @ [emb] else out_queue)"
  proof
    fix emb
    assume "emb \<in> set in_queue"
    with assms have "resolves id_map support_map emb" by simp
    then obtain cg_id support
      where "id_map (qp_id emb) = Some cg_id" "support_map cg_id = Some support"
      by (auto simp: resolves_def split: option.splits)
    then show "filter_each_id threshold emb id_map support_map out_queue
               = Inr (if frequent_by_id threshold id_map support_map emb
                      then out_queue @ [emb] else out_queue)"
      by (simp add: filter_each_id_def frequent_by_id_def)
  qed
  show ?thesis using filter_id_eq [OF assms] e by simp
qed

theorem filter_id_keeps_frequent_witness:
  "filter_id 5 [emb_qp10, emb_qp11] [10 \<mapsto> 1, 11 \<mapsto> 2] [1 \<mapsto> 7, 2 \<mapsto> 3] []
     = Inr [emb_qp10]"
  using filter_id_keeps_frequent
    [of "[emb_qp10, emb_qp11]" "[10 \<mapsto> 1, 11 \<mapsto> 2]" "[1 \<mapsto> 7, 2 \<mapsto> 3]" 5 "[]"]
  by (simp add: resolves_def frequent_by_id_def emb_qp10_def emb_qp11_def)

section \<open>C4: domain sets go to their canonical slots\<close>

lemma canonical_slots_ok:
  assumes "distinct idxs"
    and "\<forall>i\<in>set idxs. i < length slots \<and> qp_index i < numDomains"
    and "numDomains \<le> length domainSets"
  shows "\<exists>slots'. canonical_slots qp_index numDomains domainSets idxs slots = Inr slots'
           \<and> length slots' = length slots
           \<and> (\<forall>j<length slots. slots' ! j =
                 (if j \<in> set idxs then slots ! j \<union> domainSets ! qp_index j else slots ! j))"
  using assms
proof (induction idxs arbitrary: slots)
  case Nil
  then show ?case by simp
next
  case (Cons i idxs)
  let ?s = "slots[i := slots ! i \<union> domainSets ! qp_index i]"
  have i: "i < length slots" "qp_index i < numDomains" "qp_index i < length domainSets"
    using Cons.prems(2,3) by auto
  have ni: "i \<notin> set idxs" and d: "distinct idxs"
    using Cons.prems(1) by simp_all
  have b: "\<forall>k\<in>set idxs. k < length ?s \<and> qp_index k < numDomains"
    using Cons.prems(2) by simp
  from Cons.IH [OF d b Cons.prems(3)] obtain slots'
    where r: "canonical_slots qp_index numDomains domainSets idxs ?s = Inr slots'"
      and l: "length slots' = length ?s"
      and c: "\<forall>j<length ?s. slots' ! j =
                 (if j \<in> set idxs then ?s ! j \<union> domainSets ! qp_index j else ?s ! j)"
    by blast
  have "canonical_slots qp_index numDomains domainSets (i # idxs) slots = Inr slots'"
    using i r by (simp add: Let_def)
  moreover have "length slots' = length slots" using l by simp
  moreover have "\<forall>j<length slots. slots' ! j =
       (if j \<in> set (i # idxs) then slots ! j \<union> domainSets ! qp_index j else slots ! j)"
  proof (intro allI impI)
    fix j assume j: "j < length slots"
    show "slots' ! j =
       (if j \<in> set (i # idxs) then slots ! j \<union> domainSets ! qp_index j else slots ! j)"
    proof (cases "j = i")
      case True
      then show ?thesis using c j ni i(1) by simp
    next
      case False
      then show ?thesis using c j by simp
    qed
  qed
  ultimately show ?case by blast
qed

text \<open>
  C4: let the quick pattern have more than one element (the assertion of \<^verbatim>\<open>readGraph\<close>), let
  the domain sets have the size of the quick pattern, let the permutation of the oracle map
  every slot index to a slot index (the two assertions of \<^verbatim>\<open>canonical_aggregate_each\<close>), and
  let an entry that the canonical pattern already has in the map have at least as many slots.
  Then \<^verbatim>\<open>canonical_aggregate_each\<close> returns, and afterwards canonical slot \<open>i\<close> of the entry is
  what it was before (empty for a new entry) united with the quick pattern's set at index
  \<open>get_quick_pattern_index i\<close>, for every \<open>i\<close> below the number of domains: the sets are matched
  through the permutation, not by position.
\<close>

theorem canonical_aggregate_each_domain_slots:
  assumes "1 < get_size qp"
    and "get_size qp = length domainSets"
    and "\<forall>i<length domainSets.
           get_quick_pattern_index (canonical_oracle qp) i < length domainSets"
    and "length domainSets
           \<le> length (slots_before cg_map (canonical_form (canonical_oracle qp))
                       (length domainSets))"
  shows "\<exists>cg_map' id_map' slots'.
           canonical_aggregate_each_domain get_size get_qp_id canonical_oracle get_cg_id
             qp domainSets cg_map id_map = Inr (cg_map', id_map')
         \<and> map_of cg_map' (canonical_form (canonical_oracle qp)) = Some slots'
         \<and> (\<forall>i<length domainSets.
               slots' ! i =
                 slots_before cg_map (canonical_form (canonical_oracle qp))
                   (length domainSets) ! i
                 \<union> domainSets ! get_quick_pattern_index (canonical_oracle qp) i)"
proof -
  let ?n = "length domainSets"
  let ?cg = "canonical_oracle qp"
  let ?old = "slots_before cg_map (canonical_form ?cg) ?n"
  have t: "turn_canonical_graph get_size canonical_oracle qp False = Inr ?cg"
    using assms(1) by (simp add: turn_canonical_graph_def)
  have b: "\<forall>i\<in>set [0..<?n]. i < length ?old \<and> get_quick_pattern_index ?cg i < ?n"
    using assms(3,4) by auto
  from canonical_slots_ok [OF distinct_upt b order_refl] obtain slots'
    where r: "canonical_slots (get_quick_pattern_index ?cg) ?n domainSets [0..<?n] ?old
                = Inr slots'"
      and c: "\<forall>j<length ?old. slots' ! j =
                (if j \<in> set [0..<?n]
                 then ?old ! j \<union> domainSets ! get_quick_pattern_index ?cg j else ?old ! j)"
    by blast
  have "canonical_aggregate_each_domain get_size get_qp_id canonical_oracle get_cg_id
          qp domainSets cg_map id_map
        = Inr (AList.update (canonical_form ?cg) slots' cg_map,
               insert_pair (get_qp_id qp) (get_cg_id (canonical_form ?cg)) id_map)"
    using assms(2) r t
    by (simp add: canonical_aggregate_each_domain_def Let_def slots_before_def)
  moreover have "map_of (AList.update (canonical_form ?cg) slots' cg_map) (canonical_form ?cg)
                 = Some slots'"
    by (simp add: update_conv')
  moreover have "\<forall>i<?n. slots' ! i = ?old ! i \<union> domainSets ! get_quick_pattern_index ?cg i"
    using c assms(4) by auto
  ultimately show ?thesis by blast
qed

theorem canonical_aggregate_each_domain_slots_witness:
  "\<exists>cg_map' id_map' slots'.
     canonical_aggregate_each_domain size_pattern of_nat exchanging_oracle of_nat
       (2 :: nat) [{1}, {2}] [(5 :: nat, [{7}, {8}])] Map.empty = Inr (cg_map', id_map')
     \<and> map_of cg_map' 5 = Some slots'
     \<and> slots' ! 0 = {7, 2} \<and> slots' ! 1 = {8, 1}"
proof -
  have a: "\<forall>i<Suc (Suc 0). exchange i < Suc (Suc 0)"
    by (simp add: exchange_def)
  have s: "(\<forall>i<Suc (Suc 0). P i) = (P 0 \<and> P (Suc 0))" for P
    by (auto simp: less_Suc_eq)
  show ?thesis
    using canonical_aggregate_each_domain_slots
      [of size_pattern "2::nat" "[{1}, {2}]" exchanging_oracle "[(5, [{7}, {8}])]" of_nat of_nat
          Map.empty]
    using a
    by (simp add: exchanging_oracle_def slots_before_def exchange_def s insert_commute
        size_pattern_def)
qed

text \<open>
  A quick pattern of fewer than two elements does not reach the slots: \<^verbatim>\<open>readGraph\<close> aborts.
\<close>

lemma canonical_aggregate_each_domain_small:
  "get_size qp = length domainSets \<Longrightarrow> \<not> 1 < get_size qp \<Longrightarrow>
   canonical_aggregate_each_domain get_size get_qp_id canonical_oracle get_cg_id
     qp domainSets cg_map id_map = Inl (AssertionFailed ''qp.get_size() > 1'')"
  by (simp add: canonical_aggregate_each_domain_def turn_canonical_graph_def Let_def)

section \<open>C5: filtering an embedding whose pattern is not in the map\<close>

text \<open>
  C5 asks every filtering operation to abort when the canonical pattern of the embedding is
  absent from the map.  For an embedding whose quick pattern has more than one element (a
  smaller one stops at the assertion of \<^verbatim>\<open>readGraph\<close>), \<^verbatim>\<open>filter\<close> does: its assertion fails,
  for the frequency map and for the domain map.  \<^verbatim>\<open>filter_each\<close> does not: on an empty map and
  the threshold 1, the domain variant returns, adds the pattern with no slots and puts the
  embedding into the output queue as frequent, and the frequency variant returns, adds the
  pattern with the count 0 and drops the embedding.
\<close>

theorem filter_each_absent_pattern:
  assumes "1 < get_size (quick_pattern emb)"
  shows "filter_each_domain 1 quick_pattern get_size canonical_oracle emb [] out_queue
           = Inr ([(canonical_form (canonical_oracle (quick_pattern emb)), [])],
                  out_queue @ [emb])
       \<and> filter_each_freq 1 quick_pattern get_size canonical_oracle emb [] out_queue
           = Inr ([(canonical_form (canonical_oracle (quick_pattern emb)), 0)], out_queue)
       \<and> filter_domain 1 quick_pattern get_size canonical_oracle (emb # in_queue) [] out_queue
           = Inl (AssertionFailed ''cg_map.find(*cf) != cg_map.end()'')
       \<and> filter_freq 1 quick_pattern get_size canonical_oracle (emb # in_queue) [] out_queue
           = Inl (AssertionFailed ''cg_map.find(*cf) != cg_map.end()'')"
  using assms
  by (simp add: filter_each_domain_def filter_each_freq_def subscript_def Let_def
      turn_canonical_graph_def)

theorem filter_each_absent_pattern_witness:
  "filter_each_domain 1 size_emb size_pattern exchanging_oracle emb_1_3 [] []
     = Inr ([(5, [])], [emb_1_3])
   \<and> filter_each_freq 1 size_emb size_pattern exchanging_oracle emb_1_3 [] []
     = Inr ([(5, 0)], [])
   \<and> filter_domain 1 size_emb size_pattern exchanging_oracle [emb_1_3] [] []
     = Inl (AssertionFailed ''cg_map.find(*cf) != cg_map.end()'')
   \<and> filter_freq 1 size_emb size_pattern exchanging_oracle [emb_1_3] [] []
     = Inl (AssertionFailed ''cg_map.find(*cf) != cg_map.end()'')"
  using filter_each_absent_pattern
    [of size_pattern size_emb emb_1_3 exchanging_oracle "[]" "[]"]
  by (simp add: size_pattern_def size_emb_def emb_1_3_def exchanging_oracle_def)

section \<open>C6: vertex extension for cliques\<close>





lemma emit_vertex_eq:
  "emit_vertex dst s = s\<lparr>queue_of := queue_of s @ [emb_of s @ [dst]]\<rparr>"
  by (simp add: emit_vertex_def push_back_def pop_back_def)








section \<open>C8: the first two rules of the vertex-induced test\<close>

lemma vertex_existed_loop_iff: "vertex_existed_loop vs dst = (dst \<in> set vs)"
  by (induction vs) auto

text \<open>
  C8: for a vertex embedding that is not empty, \<^verbatim>\<open>is_vertexInduced_automorphism\<close> returns true
  whenever \<open>dst\<close> is less than or equal to the first vertex of the embedding, or \<open>dst\<close> is one of
  the vertices of the embedding, whatever the extension index and the graph are.
\<close>

theorem is_vertexInduced_automorphism_rejects:
  assumes "emb \<noteq> []" and "dst \<le> emb ! 0 \<or> dst \<in> set emb"
  shows "is_vertexInduced_automorphism g emb idx src dst = Inr True"
proof -
  have g0: "get_vertex_base emb 0 = Inr (emb ! 0)"
    using assms(1) by (simp add: get_vertex_base_def)
  show ?thesis
  proof (cases "dst \<le> emb ! 0")
    case True
    then show ?thesis using g0 by (simp add: is_vertexInduced_automorphism_def)
  next
    case False
    with assms(2) have m: "dst \<in> set emb" by simp
    obtain v vs where e: "emb = v # vs" using assms(1) by (cases emb) auto
    have "dst \<noteq> v" using False e by auto
    with m e have "dst \<in> set (drop 1 emb)" by simp
    then show ?thesis
      using g0 False by (simp add: is_vertexInduced_automorphism_def vertex_existed_loop_iff)
  qed
qed

theorem is_vertexInduced_automorphism_rejects_witness:
  "is_vertexInduced_automorphism triangle [1, 2] 0 1 2 = Inr True
   \<and> is_vertexInduced_automorphism triangle [1, 2] 1 2 0 = Inr True"
  using is_vertexInduced_automorphism_rejects [of "[1, 2]" 2 triangle 0 1]
    is_vertexInduced_automorphism_rejects [of "[1, 2]" 0 triangle 1 2]
  by simp

section \<open>C9: what an extension leaves unchanged\<close>

lemma emit_edge_eq:
  "emit_edge x s =
     s\<lparr>queue_of := queue_of s @ [(emb_of s)\<lparr>elements := elements (emb_of s) @ [x]\<rparr>]\<rparr>"
  by (simp add: emit_edge_def push_back_def pop_back_def)

lemma frame_vertex_refl: "frame_vertex s s"
  by (simp add: frame_vertex_def)

lemma frame_vertex_trans:
  assumes "frame_vertex s t" and "frame_vertex t u"
  shows "frame_vertex s u"
proof -
  from assms(1) obtain n1 where
    a: "graph_of t = graph_of s" "emb_of t = emb_of s" "queue_of t = queue_of s @ n1"
       "\<forall>e\<in>set n1. \<exists>x. e = emb_of s @ [x]"
    by (auto simp: frame_vertex_def)
  from assms(2) obtain n2 where
    b: "graph_of u = graph_of t" "emb_of u = emb_of t" "queue_of u = queue_of t @ n2"
       "\<forall>e\<in>set n2. \<exists>x. e = emb_of t @ [x]"
    by (auto simp: frame_vertex_def)
  have "queue_of u = queue_of s @ (n1 @ n2)" using a(3) b(3) by simp
  moreover have "\<forall>e\<in>set (n1 @ n2). \<exists>x. e = emb_of s @ [x]"
    using a(2,4) b(4) by auto
  ultimately show ?thesis
    unfolding frame_vertex_def using a(1,2) b(1,2) by metis
qed

lemma frame_vertex_emit: "frame_vertex s (emit_vertex dst s)"
  by (simp add: frame_vertex_def emit_vertex_eq)

lemma frame_vertex_num: "frame_vertex s (s\<lparr>num_of := k\<rparr>)"
  by (simp add: frame_vertex_def)

lemma frame_edge_refl: "frame_edge s s"
  by (simp add: frame_edge_def)

lemma frame_edge_trans:
  assumes "frame_edge s t" and "frame_edge t u"
  shows "frame_edge s u"
proof -
  from assms(1) obtain n1 where
    a: "graph_of t = graph_of s" "emb_of t = emb_of s" "queue_of t = queue_of s @ n1"
       "\<forall>e\<in>set n1. \<exists>x. e = (emb_of s)\<lparr>elements := elements (emb_of s) @ [x]\<rparr>"
    by (auto simp: frame_edge_def)
  from assms(2) obtain n2 where
    b: "graph_of u = graph_of t" "emb_of u = emb_of t" "queue_of u = queue_of t @ n2"
       "\<forall>e\<in>set n2. \<exists>x. e = (emb_of t)\<lparr>elements := elements (emb_of t) @ [x]\<rparr>"
    by (auto simp: frame_edge_def)
  have "queue_of u = queue_of s @ (n1 @ n2)" using a(3) b(3) by simp
  moreover have "\<forall>e\<in>set (n1 @ n2). \<exists>x. e = (emb_of s)\<lparr>elements := elements (emb_of s) @ [x]\<rparr>"
    using a(2,4) b(4) by auto
  ultimately show ?thesis
    unfolding frame_edge_def using a(1,2) b(1,2) by metis
qed

lemma frame_edge_emit: "frame_edge s (emit_edge x s)"
  by (simp add: frame_edge_def emit_edge_eq) (rule exI, rule refl)

lemma extend_vertex_edges_frame:
  "extend_vertex_edges n dsts s = Inr s' \<Longrightarrow> frame_vertex s s' \<and> num_of s' = num_of s"
proof (induction dsts arbitrary: s)
  case Nil
  then show ?case by (simp add: frame_vertex_refl)
next
  case (Cons dst dsts)
  from Cons.prems obtain t where
    t: "t = emit_vertex dst s \<or> t = s" and r: "extend_vertex_edges n dsts t = Inr s'"
    by (auto split: sum.splits if_splits)
  have "frame_vertex s t \<and> num_of t = num_of s"
    using t frame_vertex_emit [of s dst] frame_vertex_refl [of s]
    by (auto simp: emit_vertex_eq)
  with Cons.IH [OF r] show ?case
    using frame_vertex_trans by auto
qed

lemma extend_vertex_loop_frame:
  "extend_vertex_loop n idxs s = Inr s' \<Longrightarrow> frame_vertex s s' \<and> num_of s' = num_of s"
proof (induction idxs arbitrary: s)
  case Nil
  then show ?case by (simp add: frame_vertex_refl)
next
  case (Cons i idxs)
  from Cons.prems obtain v t where
    t: "extend_vertex_edges n (edges (graph_of s) v) s = Inr t"
    and r: "extend_vertex_loop n idxs t = Inr s'"
    by (auto split: sum.splits)
  from extend_vertex_edges_frame [OF t] Cons.IH [OF r] show ?case
    using frame_vertex_trans by auto
qed

lemma extend_vertex_clique_edges_frame:
  "extend_vertex_clique_edges need_update src dsts s = Inr s' \<Longrightarrow> frame_vertex s s'"
proof (induction dsts arbitrary: s)
  case Nil
  then show ?case by (simp add: frame_vertex_refl)
next
  case (Cons dst dsts)
  from Cons.prems obtain t where
    t: "t = emit_vertex dst (s\<lparr>num_of := num_of s + 1\<rparr>) \<or> t = s\<lparr>num_of := num_of s + 1\<rparr> \<or> t = s"
    and r: "extend_vertex_clique_edges need_update src dsts t = Inr s'"
    by (auto simp: Let_def split: sum.splits if_splits)
  have "frame_vertex s t"
    using t frame_vertex_refl [of s] frame_vertex_num [of s "num_of s + 1"]
      frame_vertex_trans [OF frame_vertex_num [of s "num_of s + 1"]
        frame_vertex_emit [of "s\<lparr>num_of := num_of s + 1\<rparr>" dst]]
    by auto
  with Cons.IH [OF r] show ?case
    using frame_vertex_trans by auto
qed

lemma extend_vertex_motif_edges_frame:
  "extend_vertex_motif_edges i src dsts s = Inr s' \<Longrightarrow>
   frame_vertex s s' \<and> num_of s' = num_of s"
proof (induction dsts arbitrary: s)
  case Nil
  then show ?case by (simp add: frame_vertex_refl)
next
  case (Cons dst dsts)
  from Cons.prems obtain t where
    t: "t = emit_vertex dst s \<or> t = s" and r: "extend_vertex_motif_edges i src dsts t = Inr s'"
    by (auto split: sum.splits if_splits)
  have "frame_vertex s t \<and> num_of t = num_of s"
    using t frame_vertex_emit [of s dst] frame_vertex_refl [of s]
    by (auto simp: emit_vertex_eq)
  with Cons.IH [OF r] show ?case
    using frame_vertex_trans by auto
qed

lemma extend_vertex_motif_loop_frame:
  "extend_vertex_motif_loop idxs s = Inr s' \<Longrightarrow> frame_vertex s s' \<and> num_of s' = num_of s"
proof (induction idxs arbitrary: s)
  case Nil
  then show ?case by (simp add: frame_vertex_refl)
next
  case (Cons i idxs)
  from Cons.prems obtain src t where
    t: "extend_vertex_motif_edges i src (edges (graph_of s) src) s = Inr t"
    and r: "extend_vertex_motif_loop idxs t = Inr s'"
    by (auto split: sum.splits)
  from extend_vertex_motif_edges_frame [OF t] Cons.IH [OF r] show ?case
    using frame_vertex_trans by auto
qed

lemma extend_edge_edges_frame:
  "extend_edge_edges max_size enable_label vertices_set i v dsts s = Inr s' \<Longrightarrow>
   frame_edge s s' \<and> num_of s' = num_of s"
proof (induction dsts arbitrary: s)
  case Nil
  then show ?case by (simp add: frame_edge_refl)
next
  case (Cons dst dsts)
  from Cons.prems obtain t where
    t: "(\<exists>x. t = emit_edge x s) \<or> t = s"
    and r: "extend_edge_edges max_size enable_label vertices_set i v dsts t = Inr s'"
    by (auto simp: Let_def split: sum.splits if_splits)
  have "frame_edge s t \<and> num_of t = num_of s"
    using t frame_edge_emit [of s] frame_edge_refl [of s]
    by (auto simp: emit_edge_eq)
  with Cons.IH [OF r] show ?case
    using frame_edge_trans by auto
qed

lemma extend_edge_loop_frame:
  "extend_edge_loop max_size enable_label vertices_set idxs seen s = Inr s' \<Longrightarrow>
   frame_edge s s' \<and> num_of s' = num_of s"
proof (induction idxs arbitrary: s seen)
  case Nil
  then show ?case by (simp add: frame_edge_refl)
next
  case (Cons i idxs)
  from Cons.prems obtain v where
    c: "(\<exists>t. extend_edge_edges max_size enable_label vertices_set i v (edges (graph_of s) v) s
               = Inr t
             \<and> extend_edge_loop max_size enable_label vertices_set idxs (insert v seen) t
               = Inr s')
        \<or> extend_edge_loop max_size enable_label vertices_set idxs seen s = Inr s'"
    by (auto split: sum.splits if_splits)
  then show ?case
  proof
    assume "\<exists>t. extend_edge_edges max_size enable_label vertices_set i v (edges (graph_of s) v) s
               = Inr t
             \<and> extend_edge_loop max_size enable_label vertices_set idxs (insert v seen) t
               = Inr s'"
    then obtain t where
      t: "extend_edge_edges max_size enable_label vertices_set i v (edges (graph_of s) v) s
            = Inr t"
      and r: "extend_edge_loop max_size enable_label vertices_set idxs (insert v seen) t = Inr s'"
      by blast
    from extend_edge_edges_frame [OF t] Cons.IH [OF r] show ?thesis
      using frame_edge_trans by auto
  next
    assume "extend_edge_loop max_size enable_label vertices_set idxs seen s = Inr s'"
    then show ?thesis by (rule Cons.IH)
  qed
qed

text \<open>
  C9, as the code has it.  Whenever one of the four extension operations returns, the graph is
  as before, the operation's embedding holds its original elements, and the output queue is as
  before, followed by extended copies of the embedding.  \<^verbatim>\<open>extend_edge\<close>,
  \<^verbatim>\<open>extend_vertex_motif\<close> and \<^verbatim>\<open>extend_vertex\<close> leave the accumulator as it is;
  \<^verbatim>\<open>extend_vertex_clique\<close> may add to it.
\<close>

theorem extension_frame:
  "(extend_edge max_size enable_label s = Inr s' \<longrightarrow> frame_edge s s' \<and> num_of s' = num_of s)
   \<and> (extend_vertex_motif m = Inr m' \<longrightarrow> frame_vertex m m' \<and> num_of m' = num_of m)
   \<and> (extend_vertex v = Inr v' \<longrightarrow> frame_vertex v v' \<and> num_of v' = num_of v)
   \<and> (extend_vertex_clique need_update c = Inr c' \<longrightarrow> frame_vertex c c')"
proof -
  have e: "extend_edge max_size enable_label s = Inr s' \<longrightarrow>
           frame_edge s s' \<and> num_of s' = num_of s"
    using extend_edge_loop_frame by (auto simp: extend_edge_def Let_def)
  have m: "extend_vertex_motif m = Inr m' \<longrightarrow> frame_vertex m m' \<and> num_of m' = num_of m"
    using extend_vertex_motif_loop_frame by (auto simp: extend_vertex_motif_def Let_def)
  have v: "extend_vertex v = Inr v' \<longrightarrow> frame_vertex v v' \<and> num_of v' = num_of v"
    using extend_vertex_loop_frame by (auto simp: extend_vertex_def Let_def)
  have c: "extend_vertex_clique need_update c = Inr c' \<longrightarrow> frame_vertex c c'"
    using extend_vertex_clique_edges_frame
    by (auto simp: extend_vertex_clique_def Let_def split: sum.splits)
  show ?thesis using e m v c by blast
qed

lemma extend_edge_triangle:
  "extend_edge 3 False triangle_edge_01 =
     Inr (triangle_edge_01\<lparr>queue_of :=
       [emb_0_1\<lparr>elements := elements emb_0_1 @
          [\<lparr>vertex_id = 2, key = 3, edge_label = 0, vertex_label = 0, history_info = 0\<rparr>]\<rparr>,
        emb_0_1\<lparr>elements := elements emb_0_1 @
          [\<lparr>vertex_id = 2, key = 3, edge_label = 0, vertex_label = 0, history_info = 1\<rparr>]\<rparr>]\<rparr>)"
  by (simp add: extend_edge_def size_emb_def triangle_edge_01_def emb_0_1_def triangle_def
      triangle_edges_def get_vertex_def get_history_def is_automorphism_def getEdge_def
      compare_def swap_def emit_edge_eq Let_def)

lemma extend_vertex_motif_triangle:
  "extend_vertex_motif triangle_01 = Inr (triangle_01\<lparr>queue_of := [[0, 1, 2]]\<rparr>)"
  by (simp add: extend_vertex_motif_def triangle_01_def triangle_def triangle_edges_def
      get_vertex_base_def is_vertexInduced_automorphism_def is_connected_def degrees_def
      emit_vertex_eq)

lemma extend_vertex_triangle:
  "extend_vertex triangle_01 = Inr (triangle_01\<lparr>queue_of := [[0, 1, 2], [0, 1, 2]]\<rparr>)"
  by (simp add: extend_vertex_def triangle_01_def triangle_def triangle_edges_def
      get_vertex_base_def minus_one_def emit_vertex_eq)

lemma extend_vertex_clique_triangle:
  "extend_vertex_clique True triangle_01 =
     Inr (triangle_01\<lparr>queue_of := [[0, 1, 2]], num_of := 1\<rparr>)"
  by (simp add: extend_vertex_clique_def get_vertex_base_def minus_one_def triangle_01_def
      triangle_def triangle_edges_def is_all_connected_def is_connected_def degrees_def
      emit_vertex_eq)

theorem extension_frame_witness:
  "frame_edge triangle_edge_01
     (triangle_edge_01\<lparr>queue_of :=
       [emb_0_1\<lparr>elements := elements emb_0_1 @
          [\<lparr>vertex_id = 2, key = 3, edge_label = 0, vertex_label = 0, history_info = 0\<rparr>]\<rparr>,
        emb_0_1\<lparr>elements := elements emb_0_1 @
          [\<lparr>vertex_id = 2, key = 3, edge_label = 0, vertex_label = 0, history_info = 1\<rparr>]\<rparr>]\<rparr>)
   \<and> frame_vertex triangle_01 (triangle_01\<lparr>queue_of := [[0, 1, 2]]\<rparr>)
   \<and> frame_vertex triangle_01 (triangle_01\<lparr>queue_of := [[0, 1, 2], [0, 1, 2]]\<rparr>)
   \<and> frame_vertex triangle_01 (triangle_01\<lparr>queue_of := [[0, 1, 2]], num_of := 1\<rparr>)"
  using extension_frame
    [of 3 False triangle_edge_01
        "triangle_edge_01\<lparr>queue_of :=
       [emb_0_1\<lparr>elements := elements emb_0_1 @
          [\<lparr>vertex_id = 2, key = 3, edge_label = 0, vertex_label = 0, history_info = 0\<rparr>]\<rparr>,
        emb_0_1\<lparr>elements := elements emb_0_1 @
          [\<lparr>vertex_id = 2, key = 3, edge_label = 0, vertex_label = 0, history_info = 1\<rparr>]\<rparr>]\<rparr>"
        triangle_01 "triangle_01\<lparr>queue_of := [[0, 1, 2]]\<rparr>"
        triangle_01 "triangle_01\<lparr>queue_of := [[0, 1, 2], [0, 1, 2]]\<rparr>"
        True triangle_01 "triangle_01\<lparr>queue_of := [[0, 1, 2]], num_of := 1\<rparr>"]
  by (simp only: extend_edge_triangle extend_vertex_motif_triangle extend_vertex_triangle
      extend_vertex_clique_triangle simp_thms)

text \<open>
  C9 as it is worded leaves pushing into the output queue as the only external effect of all
  four operations.  \<^verbatim>\<open>extend_vertex_clique\<close> also adds to the accumulator it is given: on the
  embedding \<open>(0, 1)\<close> of the triangle the accumulator goes from 0 to 1.
\<close>

theorem extension_frame_counterexample:
  "extend_vertex_clique True triangle_01
     = Inr (triangle_01\<lparr>queue_of := [[0, 1, 2]], num_of := 1\<rparr>)
   \<and> num_of triangle_01 = 0
   \<and> num_of (triangle_01\<lparr>queue_of := [[0, 1, 2]], num_of := 1\<rparr>) = 1"
  by (simp add: extend_vertex_clique_def get_vertex_base_def minus_one_def triangle_01_def
      triangle_def triangle_edges_def is_all_connected_def is_connected_def degrees_def
      emit_vertex_eq)

section \<open>C7: aggregation in parts and merging\<close>

lemma merge_freq_empty_left: "merge_freq Map.empty m = m"
  by (simp add: merge_freq_def)

lemma merge_domain_empty_left: "merge_domain Map.empty m = m"
  by (simp add: merge_domain_def)

lemma selected_append:
  "selected qp (xs @ ys) k = selected qp xs k @ selected qp ys k"
  by (simp add: selected_def)

lemma mset_selected:
  "mset xs = mset ys \<Longrightarrow> mset (selected qp xs k) = mset (selected qp ys k)"
  by (simp add: selected_def)

lemma selected_Nil_iff:
  "mset xs = mset ys \<Longrightarrow> (selected qp xs k = []) = (selected qp ys k = [])"
  using mset_selected [of xs ys qp k] by (metis mset_zero_iff)

lemma quick_aggregate_freq_eq:
  "quick_aggregate_freq qp embs m = merge_freq m (freq_of qp embs)"
proof (induction embs arbitrary: m)
  case Nil
  show ?case
    by (rule ext) (simp add: merge_freq_def freq_of_def selected_def split: option.splits)
next
  case (Cons e embs)
  show ?case
    by (rule ext)
      (auto simp: Cons.IH Let_def merge_freq_def freq_of_def selected_def split: option.splits)
qed

lemma freq_of_append:
  "freq_of qp (xs @ ys) = merge_freq (freq_of qp xs) (freq_of qp ys)"
  by (rule ext) (auto simp: merge_freq_def freq_of_def selected_append)

lemma freq_of_mset:
  assumes "mset xs = mset ys"
  shows "freq_of qp xs = freq_of qp ys"
proof (rule ext)
  fix k
  have "length (selected qp xs k) = length (selected qp ys k)"
    using mset_selected [OF assms, of qp k] by (metis size_mset)
  then show "freq_of qp xs k = freq_of qp ys k"
    using selected_Nil_iff [OF assms, of qp k] by (simp add: freq_of_def)
qed

lemma merge_all_freq:
  "merge_all merge_freq Map.empty (map (freq_of qp) parts) = freq_of qp (concat parts)"
proof (induction parts rule: rev_induct)
  case Nil
  show ?case
    by (rule ext) (simp add: merge_all_def freq_of_def selected_def)
next
  case (snoc p parts)
  then show ?case
    by (simp add: merge_all_def freq_of_append)
qed

lemma insert_vertices_ok:
  assumes "distinct idxs"
    and "\<forall>i\<in>set idxs. i < length slots \<and> i < size_emb emb"
  shows "insert_vertices emb idxs slots =
           Inr (map (\<lambda>j. if j \<in> set idxs
                           then insert (vertex_id (elements emb ! j)) (slots ! j)
                           else slots ! j) [0 ..< length slots])"
  using assms
proof (induction idxs arbitrary: slots)
  case Nil
  then show ?case by (simp add: map_nth)
next
  case (Cons i idxs)
  let ?v = "vertex_id (elements emb ! i)"
  let ?s = "slots[i := insert ?v (slots ! i)]"
  have i: "i < length slots" "i < size_emb emb" "i \<notin> set idxs"
    using Cons.prems by auto
  have d: "distinct idxs" using Cons.prems(1) by simp
  have b: "\<forall>k\<in>set idxs. k < length ?s \<and> k < size_emb emb"
    using Cons.prems(2) by simp
  have g: "get_vertex emb i = Inr ?v"
    using i(2) by (simp add: get_vertex_def size_emb_def)
  have "map (\<lambda>j. if j \<in> set idxs then insert (vertex_id (elements emb ! j)) (?s ! j)
                     else ?s ! j) [0 ..< length ?s]
        = map (\<lambda>j. if j \<in> set (i # idxs)
                      then insert (vertex_id (elements emb ! j)) (slots ! j)
                      else slots ! j) [0 ..< length slots]"
    using i by (auto simp: nth_list_update)
  then show ?case
    using g i(1) Cons.IH [OF d b] by simp
qed

lemma insert_vertices_all:
  assumes "length slots = size_emb emb"
  shows "insert_vertices emb [0 ..< size_emb emb] slots =
           Inr (map (\<lambda>j. insert (vertex_id (elements emb ! j)) (slots ! j))
                  [0 ..< size_emb emb])"
proof -
  have b: "\<forall>i\<in>set [0 ..< size_emb emb]. i < length slots \<and> i < size_emb emb"
    using assms by simp
  show ?thesis
    using insert_vertices_ok [OF distinct_upt b] assms by (simp cong: map_cong)
qed

lemma quick_aggregate_domain_append:
  "quick_aggregate_domain qp (xs @ ys) m =
     (case quick_aggregate_domain qp xs m of
        Inl f \<Rightarrow> Inl f
      | Inr m' \<Rightarrow> quick_aggregate_domain qp ys m')"
proof (induction xs arbitrary: m)
  case Nil
  show ?case by simp
next
  case (Cons x xs)
  show ?case
  proof (cases "m (qp x)")
    case None
    show ?thesis
    proof (cases "insert_vertices x [0 ..< size_emb x] (replicate (size_emb x) {})")
      case (Inl f)
      then show ?thesis using None by simp
    next
      case (Inr slots')
      have a: "quick_aggregate_domain qp ((x # xs) @ ys) m
               = quick_aggregate_domain qp (xs @ ys) (m(qp x \<mapsto> slots'))"
        using None Inr by simp
      have b: "quick_aggregate_domain qp (x # xs) m
               = quick_aggregate_domain qp xs (m(qp x \<mapsto> slots'))"
        using None Inr by simp
      show ?thesis unfolding a b by (rule Cons.IH)
    qed
  next
    case (Some slots)
    show ?thesis
    proof (cases "insert_vertices x [0 ..< size_emb x] slots")
      case (Inl f)
      then show ?thesis using Some by simp
    next
      case (Inr slots')
      have a: "quick_aggregate_domain qp ((x # xs) @ ys) m
               = quick_aggregate_domain qp (xs @ ys) (m(qp x \<mapsto> slots'))"
        using Some Inr by simp
      have b: "quick_aggregate_domain qp (x # xs) m
               = quick_aggregate_domain qp xs (m(qp x \<mapsto> slots'))"
        using Some Inr by simp
      show ?thesis unfolding a b by (rule Cons.IH)
    qed
  qed
qed

lemma same_size_subset: "same_size qp E \<Longrightarrow> F \<subseteq> E \<Longrightarrow> same_size qp F"
  by (auto simp: same_size_def)

lemma selected_subset: "set (selected qp embs k) \<subseteq> set embs"
  by (auto simp: selected_def)

lemma selected_key: "e \<in> set (selected qp embs k) \<Longrightarrow> qp e = k"
  by (simp add: selected_def)

lemma length_slots_of: "length (slots_of sel) = size_emb (hd sel)"
  by (simp add: slots_of_def)

lemma slots_of_snoc:
  assumes "sel \<noteq> []" and "size_emb e = size_emb (hd sel)"
  shows "map (\<lambda>j. insert (vertex_id (elements e ! j)) (slots_of sel ! j)) [0 ..< size_emb e]
         = slots_of (sel @ [e])"
  using assms by (auto simp: slots_of_def)

lemma slots_of_single:
  "map (\<lambda>j. insert (vertex_id (elements e ! j)) (replicate (size_emb e) {} ! j))
     [0 ..< size_emb e] = slots_of [e]"
  by (auto simp: slots_of_def)

lemma quick_aggregate_domain_step:
  assumes "same_size qp (set (embs @ [e]))"
  shows "quick_aggregate_domain qp [e] (domain_of qp embs) = Inr (domain_of qp (embs @ [e]))"
proof (cases "selected qp embs (qp e) = []")
  case True
  have n: "domain_of qp embs (qp e) = None" using True by (simp add: domain_of_def)
  have "(domain_of qp embs)(qp e \<mapsto> slots_of [e]) = domain_of qp (embs @ [e])"
    using True by (rule_tac ext) (simp add: domain_of_def selected_def)
  then show ?thesis
    using n insert_vertices_all [of "replicate (size_emb e) {}" e]
    by (simp add: slots_of_single)
next
  case False
  let ?sel = "selected qp embs (qp e)"
  have s: "domain_of qp embs (qp e) = Some (slots_of ?sel)"
    using False by (simp add: domain_of_def)
  have h: "hd ?sel \<in> set ?sel" using False by simp
  then have "hd ?sel \<in> set (embs @ [e]) \<and> qp (hd ?sel) = qp e"
    using selected_subset [of qp embs "qp e"] selected_key [of "hd ?sel" qp embs "qp e"]
    by auto
  moreover have "e \<in> set (embs @ [e])" by simp
  ultimately have z: "size_emb e = size_emb (hd ?sel)"
    using assms unfolding same_size_def by metis
  have l: "length (slots_of ?sel) = size_emb e"
    using z by (simp add: length_slots_of)
  have "(domain_of qp embs)(qp e \<mapsto> slots_of (?sel @ [e])) = domain_of qp (embs @ [e])"
    by (rule ext) (simp add: domain_of_def selected_def)
  then show ?thesis
    using s insert_vertices_all [OF l] slots_of_snoc [OF False z] by simp
qed

lemma quick_aggregate_domain_eq:
  "same_size qp (set embs) \<Longrightarrow>
   quick_aggregate_domain qp embs Map.empty = Inr (domain_of qp embs)"
proof (induction embs rule: rev_induct)
  case Nil
  have "domain_of qp [] = Map.empty"
    by (rule ext) (simp add: domain_of_def selected_def)
  then show ?case by simp
next
  case (snoc e embs)
  have "same_size qp (set embs)"
    using snoc.prems by (rule same_size_subset) auto
  then have "quick_aggregate_domain qp embs Map.empty = Inr (domain_of qp embs)"
    by (rule snoc.IH)
  then show ?case
    using quick_aggregate_domain_step [OF snoc.prems]
    by (simp add: quick_aggregate_domain_append)
qed

lemma slots_of_append:
  assumes "xs \<noteq> []" "ys \<noteq> []" "size_emb (hd xs) = size_emb (hd ys)"
  shows "map2 (\<union>) (slots_of xs) (slots_of ys) = slots_of (xs @ ys)"
proof (rule nth_equalityI)
  show "length (map2 (\<union>) (slots_of xs) (slots_of ys)) = length (slots_of (xs @ ys))"
    using assms by (simp add: slots_of_def)
next
  fix i
  assume "i < length (map2 (\<union>) (slots_of xs) (slots_of ys))"
  then show "map2 (\<union>) (slots_of xs) (slots_of ys) ! i = slots_of (xs @ ys) ! i"
    using assms by (simp add: slots_of_def image_Un)
qed

lemma domain_of_append:
  assumes "same_size qp (set (xs @ ys))"
  shows "domain_of qp (xs @ ys) = merge_domain (domain_of qp xs) (domain_of qp ys)"
proof (rule ext)
  fix k
  let ?x = "selected qp xs k" and ?y = "selected qp ys k"
  show "domain_of qp (xs @ ys) k = merge_domain (domain_of qp xs) (domain_of qp ys) k"
  proof (cases "?x = [] \<or> ?y = []")
    case True
    then show ?thesis
      by (auto simp: domain_of_def merge_domain_def selected_append)
  next
    case False
    then have nx: "?x \<noteq> []" and ny: "?y \<noteq> []" by simp_all
    have hx: "hd ?x \<in> set ?x" using nx by (rule hd_in_set)
    have hy: "hd ?y \<in> set ?y" using ny by (rule hd_in_set)
    have mx: "hd ?x \<in> set (xs @ ys)"
      using hx selected_subset [of qp xs k] by auto
    have my: "hd ?y \<in> set (xs @ ys)"
      using hy selected_subset [of qp ys k] by auto
    have q: "qp (hd ?x) = qp (hd ?y)"
      using selected_key [OF hx] selected_key [OF hy] by simp
    have z: "size_emb (hd ?x) = size_emb (hd ?y)"
      using assms mx my q unfolding same_size_def by blast
    have a: "map2 (\<union>) (slots_of ?x) (slots_of ?y) = slots_of (?x @ ?y)"
      by (rule slots_of_append [OF nx ny z])
    have l: "domain_of qp (xs @ ys) k = Some (slots_of (?x @ ?y))"
      using nx by (simp add: domain_of_def selected_append)
    have r: "merge_domain (domain_of qp xs) (domain_of qp ys) k
             = Some (map2 (\<union>) (slots_of ?x) (slots_of ?y))"
      using nx ny by (simp add: domain_of_def merge_domain_def)
    show ?thesis unfolding l r a by (rule refl)
  qed
qed

lemma slots_of_mset:
  assumes "mset xs = mset ys" and "xs \<noteq> []"
    and "\<forall>a\<in>set xs. \<forall>b\<in>set xs. size_emb a = size_emb b"
  shows "slots_of xs = slots_of ys"
proof -
  have s: "set xs = set ys" using assms(1) by (rule mset_eq_setD)
  have "ys \<noteq> []" using assms(1,2) by auto
  then have "hd ys \<in> set ys" by (rule hd_in_set)
  then have y: "hd ys \<in> set xs" using s by simp
  have x: "hd xs \<in> set xs" using assms(2) by (rule hd_in_set)
  have "size_emb (hd xs) = size_emb (hd ys)" using assms(3) x y by blast
  then show ?thesis using s by (simp add: slots_of_def)
qed

lemma domain_of_mset:
  assumes "mset xs = mset ys" and "same_size qp (set xs)"
  shows "domain_of qp xs = domain_of qp ys"
proof (rule ext)
  fix k
  let ?x = "selected qp xs k" and ?y = "selected qp ys k"
  have m: "mset ?x = mset ?y" by (rule mset_selected [OF assms(1)])
  show "domain_of qp xs k = domain_of qp ys k"
  proof (cases "?x = []")
    case True
    then show ?thesis
      using selected_Nil_iff [OF assms(1), of qp k] by (simp add: domain_of_def)
  next
    case False
    have "\<forall>a\<in>set ?x. \<forall>b\<in>set ?x. size_emb a = size_emb b"
    proof (intro ballI)
      fix a b
      assume a: "a \<in> set ?x" and b: "b \<in> set ?x"
      have "a \<in> set xs" "b \<in> set xs"
        using a b selected_subset [of qp xs k] by auto
      moreover have "qp a = qp b"
        using selected_key [OF a] selected_key [OF b] by simp
      ultimately show "size_emb a = size_emb b"
        using assms(2) unfolding same_size_def by blast
    qed
    then have "slots_of ?x = slots_of ?y"
      by (rule slots_of_mset [OF m False])
    then show ?thesis
      using False selected_Nil_iff [OF assms(1), of qp k] by (simp add: domain_of_def)
  qed
qed

lemma merge_all_domain:
  "same_size qp (set (concat parts)) \<Longrightarrow>
   merge_all merge_domain Map.empty (map (domain_of qp) parts) = domain_of qp (concat parts)"
proof (induction parts rule: rev_induct)
  case Nil
  show ?case
    by (rule ext) (simp add: merge_all_def domain_of_def selected_def)
next
  case (snoc p parts)
  have "same_size qp (set (concat parts))"
    using snoc.prems by (rule same_size_subset) auto
  then have "merge_all merge_domain Map.empty (map (domain_of qp) parts)
             = domain_of qp (concat parts)"
    by (rule snoc.IH)
  moreover have "domain_of qp (concat parts @ p)
                 = merge_domain (domain_of qp (concat parts)) (domain_of qp p)"
    using snoc.prems by (intro domain_of_append) simp
  ultimately show ?case
    by (simp add: merge_all_def)
qed

lemma map2_Un_commute: "map2 (\<union>) a b = map2 (\<union>) b (a :: 'a set list)"
proof (induction a arbitrary: b)
  case Nil
  show ?case by simp
next
  case (Cons x a)
  show ?case by (cases b) (simp_all add: Cons.IH Un_commute)
qed

lemma map2_Un_assoc:
  "map2 (\<union>) (map2 (\<union>) a b) c = map2 (\<union>) a (map2 (\<union>) b (c :: 'a set list))"
proof (induction a arbitrary: b c)
  case Nil
  show ?case by simp
next
  case (Cons x a)
  show ?case
  proof (cases b)
    case Nil
    then show ?thesis by simp
  next
    case b: (Cons y b')
    show ?thesis
      unfolding b by (cases c) (simp_all add: Cons.IH Un_assoc)
  qed
qed

lemma merge_freq_commute: "merge_freq a b = merge_freq b a"
  by (rule ext) (simp add: merge_freq_def add.commute split: option.splits)

lemma merge_freq_assoc: "merge_freq (merge_freq a b) c = merge_freq a (merge_freq b c)"
  by (rule ext) (simp add: merge_freq_def add.assoc split: option.splits)

lemma merge_domain_commute: "merge_domain a b = merge_domain b a"
  by (rule ext) (simp add: merge_domain_def map2_Un_commute split: option.splits)

lemma merge_domain_assoc:
  "merge_domain (merge_domain a b) c = merge_domain a (merge_domain b c)"
  by (rule ext) (simp add: merge_domain_def map2_Un_assoc split: option.splits)

lemma insert_vertices_qp_id:
  "insert_vertices (emb\<lparr>qp_id := q\<rparr>) idxs slots = insert_vertices emb idxs slots"
  by (induction idxs arbitrary: slots) (simp_all add: get_vertex_def)

lemma quick_aggregate_each_freq_step:
  "snd (quick_aggregate_each_freq qp get_id emb m) = quick_aggregate_freq qp [emb] m"
  by (simp add: quick_aggregate_each_freq_def Let_def split: option.splits)

lemma quick_aggregate_each_domain_step:
  "(case quick_aggregate_each_domain qp get_id emb m of
      Inl f \<Rightarrow> Inl f
    | Inr r \<Rightarrow> Inr (snd r)) = quick_aggregate_domain qp [emb] m"
  by (simp add: quick_aggregate_each_domain_def Let_def insert_vertices_qp_id size_emb_def
      split: option.splits sum.splits)

text \<open>
  C7.  Let the embeddings of the queue be distributed over any sequence of parts (the parts
  together hold the embeddings of the queue, as a multiset), and let embeddings with the same
  quick pattern have the same size.  Aggregating every part alone into an empty map and
  merging the local maps, in the order of the sequence, gives the map that aggregating the
  whole queue gives, for frequencies and for domain sets; the domain aggregation returns for
  every part and for the whole queue.  The result is the map \<open>freq_of\<close>, respectively
  \<open>domain_of\<close>, of the queue, which does not depend on the order of the embeddings.  The merge
  is commutative and associative, so the local maps can be merged in any order and grouping.
  \<^verbatim>\<open>quick_aggregate_each\<close> changes the map as \<^verbatim>\<open>quick_aggregate\<close> does for a queue of one
  embedding.
\<close>

theorem aggregate_in_parts:
  assumes "mset (concat parts) = mset queue"
    and "same_size quick_pattern (set queue)"
  shows "merge_all merge_freq Map.empty
           (map (\<lambda>p. quick_aggregate_freq quick_pattern p Map.empty) parts)
           = quick_aggregate_freq quick_pattern queue Map.empty
       \<and> quick_aggregate_freq quick_pattern queue Map.empty = freq_of quick_pattern queue
       \<and> map (\<lambda>p. quick_aggregate_domain quick_pattern p Map.empty) parts
           = map (\<lambda>p. Inr (domain_of quick_pattern p)) parts
       \<and> quick_aggregate_domain quick_pattern queue Map.empty
           = Inr (domain_of quick_pattern queue)
       \<and> merge_all merge_domain Map.empty (map (domain_of quick_pattern) parts)
           = domain_of quick_pattern queue
       \<and> merge_freq a b = merge_freq b a
       \<and> merge_freq (merge_freq a b) c = merge_freq a (merge_freq b c)
       \<and> merge_domain d e = merge_domain e d
       \<and> merge_domain (merge_domain d e) f = merge_domain d (merge_domain e f)
       \<and> snd (quick_aggregate_each_freq quick_pattern get_id emb a)
           = quick_aggregate_freq quick_pattern [emb] a
       \<and> (case quick_aggregate_each_domain quick_pattern get_id emb d of
             Inl x \<Rightarrow> Inl x
           | Inr r \<Rightarrow> Inr (snd r)) = quick_aggregate_domain quick_pattern [emb] d"
proof -
  let ?qp = quick_pattern
  have s: "set (concat parts) = set queue"
    using assms(1) by (rule mset_eq_setD)
  have sc: "same_size ?qp (set (concat parts))"
    using assms(2) s by simp
  have one: "quick_aggregate_freq ?qp xs Map.empty = freq_of ?qp xs" for xs
    by (simp add: quick_aggregate_freq_eq merge_freq_empty_left)
  have f1: "merge_all merge_freq Map.empty (map (\<lambda>p. quick_aggregate_freq ?qp p Map.empty) parts)
            = freq_of ?qp (concat parts)"
    using merge_all_freq [of ?qp parts] by (simp add: one cong: map_cong)
  have f2: "freq_of ?qp (concat parts) = freq_of ?qp queue"
    by (rule freq_of_mset [OF assms(1)])
  have d0: "\<forall>p\<in>set parts. quick_aggregate_domain ?qp p Map.empty = Inr (domain_of ?qp p)"
  proof
    fix p assume "p \<in> set parts"
    then have "set p \<subseteq> set (concat parts)" by auto
    then have "same_size ?qp (set p)" by (rule same_size_subset [OF sc])
    then show "quick_aggregate_domain ?qp p Map.empty = Inr (domain_of ?qp p)"
      by (rule quick_aggregate_domain_eq)
  qed
  have d1: "map (\<lambda>p. quick_aggregate_domain ?qp p Map.empty) parts
            = map (\<lambda>p. Inr (domain_of ?qp p)) parts"
    using d0 by (simp cong: map_cong)
  have d2: "quick_aggregate_domain ?qp queue Map.empty = Inr (domain_of ?qp queue)"
    by (rule quick_aggregate_domain_eq [OF assms(2)])
  have d3: "merge_all merge_domain Map.empty (map (domain_of ?qp) parts)
            = domain_of ?qp queue"
    using merge_all_domain [OF sc] domain_of_mset [OF assms(1) sc] by simp
  show ?thesis
    using f1 f2 one [of queue] d1 d2 d3
      merge_freq_commute [of a b] merge_freq_assoc [of a b c]
      merge_domain_commute [of d e] merge_domain_assoc [of d e f]
      quick_aggregate_each_freq_step [of ?qp get_id emb a]
      quick_aggregate_each_domain_step [of ?qp get_id emb d]
    by simp
qed

theorem aggregate_in_parts_witness:
  "merge_all merge_freq Map.empty
     (map (\<lambda>p. quick_aggregate_freq size_emb p Map.empty) [[emb_2_5], [emb_1_3]])
     = quick_aggregate_freq size_emb [emb_1_3, emb_2_5] Map.empty
   \<and> merge_all merge_domain Map.empty (map (domain_of size_emb) [[emb_2_5], [emb_1_3]])
     = domain_of size_emb [emb_1_3, emb_2_5]
   \<and> quick_aggregate_domain size_emb [emb_1_3, emb_2_5] Map.empty
     = Inr (domain_of size_emb [emb_1_3, emb_2_5])"
proof -
  have h1: "mset (concat [[emb_2_5], [emb_1_3]]) = mset [emb_1_3, emb_2_5]"
    by (simp add: add_mset_commute)
  have h2: "same_size size_emb (set [emb_1_3, emb_2_5])"
    by (simp add: same_size_def size_emb_def emb_1_3_def emb_2_5_def)
  show ?thesis
    using aggregate_in_parts [OF h1 h2] by blast
qed

end
